theory Spec2Isabelle
  imports Complex_Main "HOL-Library.Word" "HOL-Library.Multiset"
begin

unbundle bit_operations_syntax

section \<open>pgcenter: the statistics refresh engine of \<^verbatim>\<open>pgcenter.c\<close>\<close>

text \<open>
  A shallow embedding of the functions of \<^verbatim>\<open>pgcenter.c\<close> that decide what is shown in
  the data window: the views and their sort keys (\<^verbatim>\<open>init_screens\<close>,
  \<^verbatim>\<open>change_sort_order\<close>), the result arrays (\<^verbatim>\<open>pgrescpy\<close>, \<^verbatim>\<open>diff_arrays\<close>,
  \<^verbatim>\<open>sort_array\<close>), the body of the main loop, the CPU line, the min age dialogue and
  the connection file.

  C strings are \<open>string\<close>; \<^verbatim>\<open>int\<close> values that hold column numbers and row counts are
  \<open>int\<close> (they stay far from the 32-bit bounds); \<^verbatim>\<open>long long\<close> is \<open>int\<close> with the
  64-bit wrap-around written out; \<^verbatim>\<open>unsigned long long\<close> is \<open>64 word\<close>. A pointer
  that may be \<^verbatim>\<open>NULL\<close> is an \<open>option\<close>. A run that reads or writes outside an object
  (undefined behaviour in C) has the value \<open>None\<close>.
\<close>

subsection \<open>The header \<^verbatim>\<open>pgcenter.h\<close>\<close>

text \<open>
  The enumeration of the views, in the order in which \<^verbatim>\<open>init_screens\<close> fills
  \<^verbatim>\<open>context_list\<close>.
\<close>

datatype query_context =
    pg_stat_database
  | pg_stat_replication
  | pg_stat_user_tables
  | pg_stat_user_indexes
  | pg_statio_user_tables
  | pg_tables_size
  | pg_stat_activity_long
  | pg_stat_user_functions

text \<open>
  \<^verbatim>\<open>pgcenter.h\<close> is not among the sources, so the constants of its macros are
  parameters of the model: \<open>ORDER_MIN h c\<close> and \<open>ORDER_MAX h c\<close> stand for the macros
  \<^verbatim>\<open>PG_STAT_DATABASE_ORDER_MIN\<close>, \<^verbatim>\<open>PG_STAT_DATABASE_ORDER_MAX\<close>, ... of view \<open>c\<close>;
  \<open>sizeof_min_age\<close> is the size of the field \<^verbatim>\<open>pg_stat_activity_min_age\<close>.
\<close>

record pgcenter_h =
  ORDER_MIN :: "query_context \<Rightarrow> int"
  ORDER_MAX :: "query_context \<Rightarrow> int"
  PG_STAT_USER_FUNCTIONS_DIFF_COL :: int
  INVALID_ORDER_KEY :: int
  DEFAULT_QUERY_CONTEXT :: query_context
  PG_STAT_ACTIVITY_MIN_AGE_DEFAULT :: string
  BUFFERSIZE_S :: nat
  sizeof_min_age :: nat

subsection \<open>The C library: \<^verbatim>\<open>atoll\<close> and \<^verbatim>\<open>%lli\<close>\<close>

definition isspace :: "char \<Rightarrow> bool" where
  "isspace c = (c \<in> set [CHR '' '', CHR 0x09, CHR 0x0A, CHR 0x0B, CHR 0x0C, CHR 0x0D])"

definition isdigit :: "char \<Rightarrow> bool" where
  "isdigit c = (48 \<le> (of_char c :: nat) \<and> (of_char c :: nat) \<le> 57)"

definition digit_val :: "char \<Rightarrow> nat" where
  "digit_val c = of_char c - 48"

text \<open>The digits at the start of a string, read from the left; the rest is ignored.\<close>

fun digits_value :: "nat \<Rightarrow> string \<Rightarrow> nat" where
  "digits_value acc [] = acc"
| "digits_value acc (c # cs) =
     (if isdigit c then digits_value (acc * 10 + digit_val c) cs else acc)"

definition LLONG_MAX :: int where
  "LLONG_MAX = 9223372036854775807"

definition LLONG_MIN :: int where
  "LLONG_MIN = - 9223372036854775808"

text \<open>
  \<^verbatim>\<open>atoll(s)\<close> is \<^verbatim>\<open>strtoll(s, NULL, 10)\<close>: white space is skipped, one sign is read,
  then the digits; without a digit the value is 0, and a value outside
  \<^verbatim>\<open>long long\<close> is clamped (glibc).
\<close>

definition atoll :: "string \<Rightarrow> int" where
  "atoll s =
     (case dropWhile isspace s of
        [] \<Rightarrow> 0
      | c # cs \<Rightarrow>
          if c = CHR ''-'' then max LLONG_MIN (- int (digits_value 0 cs))
          else if c = CHR ''+'' then min LLONG_MAX (int (digits_value 0 cs))
          else min LLONG_MAX (int (digits_value 0 (c # cs))))"

text \<open>
  The subtraction of two \<^verbatim>\<open>long long\<close> values. An overflow is undefined in C; the
  model wraps around, as the machine instruction does.
\<close>

definition ll_sub :: "int \<Rightarrow> int \<Rightarrow> int" where
  "ll_sub a b = (a - b + 2 ^ 63) mod 2 ^ 64 - 2 ^ 63"

definition digit_char :: "nat \<Rightarrow> char" where
  "digit_char d = ''0123456789'' ! d"

fun decimal :: "nat \<Rightarrow> string" where
  "decimal n =
     (if n < 10 then [digit_char n]
      else decimal (n div 10) @ [digit_char (n mod 10)])"

declare decimal.simps [simp del]

text \<open>\<^verbatim>\<open>snprintf(buf, n + 1, "%lli", x)\<close>.\<close>

definition lli_format :: "int \<Rightarrow> string" where
  "lli_format x = (if x < 0 then CHR ''-'' # decimal (nat (- x)) else decimal (nat x))"

subsection \<open>Results of queries and the arrays made of them\<close>

datatype ExecStatusType =
    PGRES_EMPTY_QUERY
  | PGRES_COMMAND_OK
  | PGRES_TUPLES_OK
  | PGRES_FATAL_ERROR

text \<open>
  A \<^verbatim>\<open>PGresult\<close> of libpq: its status, the names of its fields and its tuples. The
  functions of libpq that read it accept \<^verbatim>\<open>NULL\<close>: \<^verbatim>\<open>PQntuples\<close> and \<^verbatim>\<open>PQnfields\<close>
  return 0 for it, \<^verbatim>\<open>PQresultStatus\<close> returns \<^verbatim>\<open>PGRES_FATAL_ERROR\<close>, and
  \<^verbatim>\<open>PQgetvalue\<close> returns \<^verbatim>\<open>NULL\<close> for it and for a row or column out of range.
\<close>

record PGresult =
  resultStatus :: ExecStatusType
  attnames :: "string list"
  tuples :: "string list list"

definition PQresultStatus :: "PGresult option \<Rightarrow> ExecStatusType" where
  "PQresultStatus res = (case res of None \<Rightarrow> PGRES_FATAL_ERROR | Some r \<Rightarrow> resultStatus r)"

definition PQntuples :: "PGresult option \<Rightarrow> nat" where
  "PQntuples res = (case res of None \<Rightarrow> 0 | Some r \<Rightarrow> length (tuples r))"

definition PQnfields :: "PGresult option \<Rightarrow> nat" where
  "PQnfields res = (case res of None \<Rightarrow> 0 | Some r \<Rightarrow> length (attnames r))"

definition PQgetvalue :: "PGresult option \<Rightarrow> nat \<Rightarrow> nat \<Rightarrow> string option" where
  "PQgetvalue res i j =
     (case res of
        None \<Rightarrow> None
      | Some r \<Rightarrow>
          if i < length (tuples r) \<and> j < length (attnames r) \<and> j < length (tuples r ! i)
          then Some (tuples r ! i ! j) else None)"

definition PQfname :: "PGresult option \<Rightarrow> nat \<Rightarrow> string option" where
  "PQfname res j =
     (case res of
        None \<Rightarrow> None
      | Some r \<Rightarrow> if j < length (attnames r) then Some (attnames r ! j) else None)"

text \<open>
  \<^verbatim>\<open>init_array\<close> gives every cell 255 bytes, and \<^verbatim>\<open>pgrescpy\<close> copies with
  \<^verbatim>\<open>strcpy\<close>: a value that \<^verbatim>\<open>PQgetvalue\<close> does not have (\<^verbatim>\<open>NULL\<close>) or that does not
  fit in 255 bytes with its terminator is undefined behaviour.
\<close>

definition cell_ok :: "PGresult option \<Rightarrow> nat \<Rightarrow> nat \<Rightarrow> bool" where
  "cell_ok res i j = (case PQgetvalue res i j of None \<Rightarrow> False | Some v \<Rightarrow> length v < 255)"

definition pgrescpy :: "PGresult option \<Rightarrow> nat \<Rightarrow> nat \<Rightarrow> string list list option" where
  "pgrescpy res n_rows n_cols =
     (if list_all (\<lambda>i. list_all (\<lambda>j. cell_ok res i j) [0..<n_cols]) [0..<n_rows]
      then Some (map (\<lambda>i. map (\<lambda>j. the (PQgetvalue res i j)) [0..<n_cols]) [0..<n_rows])
      else None)"

text \<open>The columns \<^verbatim>\<open>min\<close> .. \<^verbatim>\<open>max\<close> that \<^verbatim>\<open>diff_arrays\<close> subtracts, by view.\<close>

definition diff_range :: "pgcenter_h \<Rightarrow> query_context \<Rightarrow> int \<times> int" where
  "diff_range h c =
     (case c of
        pg_stat_database \<Rightarrow> (ORDER_MIN h pg_stat_database, ORDER_MAX h pg_stat_database)
      | pg_stat_replication \<Rightarrow> (ORDER_MIN h pg_stat_replication, ORDER_MAX h pg_stat_replication)
      | pg_stat_user_tables \<Rightarrow> (ORDER_MIN h pg_stat_user_tables, ORDER_MAX h pg_stat_user_tables)
      | pg_stat_user_indexes \<Rightarrow> (ORDER_MIN h pg_stat_user_indexes, ORDER_MAX h pg_stat_user_indexes)
      | pg_statio_user_tables \<Rightarrow>
          (ORDER_MIN h pg_statio_user_tables, ORDER_MAX h pg_statio_user_tables)
      | pg_tables_size \<Rightarrow> (ORDER_MIN h pg_tables_size, ORDER_MAX h pg_tables_size)
      | pg_stat_activity_long \<Rightarrow>
          (ORDER_MIN h pg_stat_activity_long, ORDER_MAX h pg_stat_activity_long)
      | pg_stat_user_functions \<Rightarrow>
          (PG_STAT_USER_FUNCTIONS_DIFF_COL h, PG_STAT_USER_FUNCTIONS_DIFF_COL h))"

text \<open>The body of the inner loop of \<^verbatim>\<open>diff_arrays\<close>: the cell of column \<open>j\<close>.\<close>

definition diff_cell :: "int \<Rightarrow> int \<Rightarrow> string \<Rightarrow> string \<Rightarrow> nat \<Rightarrow> string" where
  "diff_cell mn mx p c j =
     (if int j < mn \<or> int j > mx then c
      else lli_format (ll_sub (atoll c) (atoll p)))"

definition diff_arrays ::
  "pgcenter_h \<Rightarrow> string list list \<Rightarrow> string list list \<Rightarrow> query_context \<Rightarrow> nat \<Rightarrow> nat
     \<Rightarrow> string list list" where
  "diff_arrays h p_arr c_arr c n_rows n_cols =
     (let (mn, mx) = diff_range h c
      in map (\<lambda>i. map (\<lambda>j. diff_cell mn mx (p_arr ! i ! j) (c_arr ! i ! j) j) [0..<n_cols])
           [0..<n_rows])"

text \<open>An array of \<open>n_rows\<close> rows of \<open>n_cols\<close> cells, as \<^verbatim>\<open>init_array\<close> allocates it.\<close>

definition shaped :: "string list list \<Rightarrow> nat \<Rightarrow> nat \<Rightarrow> bool" where
  "shaped arr n_rows n_cols = (length arr = n_rows \<and> list_all (\<lambda>r. length r = n_cols) arr)"

subsection \<open>Screens and their sort keys\<close>

text \<open>
  One entry of \<^verbatim>\<open>context_list\<close>; the field \<^verbatim>\<open>context\<close> of the C structure is
  \<open>context_of\<close> here.
\<close>

record context_s =
  context_of :: query_context
  order_key :: int
  order_desc :: bool

record screen_s =
  screen :: int
  conn_used :: bool
  host :: string
  port :: string
  user :: string
  dbname :: string
  password :: string
  conninfo :: string
  log_opened :: bool
  current_context :: query_context
  pg_stat_activity_min_age :: string
  context_list :: "context_s list"

text \<open>
  Modelled from the spec: \<^verbatim>\<open>MAX_CONSOLE\<close> and \<^verbatim>\<open>TOTAL_CONTEXTS\<close> of
  \<^verbatim>\<open>pgcenter.h\<close>. The spec has eight consoles and eight views; \<^verbatim>\<open>main\<close> declares
  \<^verbatim>\<open>conns[8]\<close> and \<^verbatim>\<open>init_screens\<close> fills eight entries of \<^verbatim>\<open>context_list\<close>.
\<close>

definition MAX_CONSOLE :: nat where
  "MAX_CONSOLE = 8"

definition all_contexts :: "query_context list" where
  "all_contexts =
     [pg_stat_database, pg_stat_replication, pg_stat_user_tables, pg_stat_user_indexes,
      pg_statio_user_tables, pg_tables_size, pg_stat_activity_long, pg_stat_user_functions]"

definition init_screen :: "pgcenter_h \<Rightarrow> nat \<Rightarrow> screen_s" where
  "init_screen h i =
     \<lparr> screen = int i, conn_used = False, host = [], port = [], user = [], dbname = [],
       password = [], conninfo = [], log_opened = False,
       current_context = DEFAULT_QUERY_CONTEXT h,
       pg_stat_activity_min_age = PG_STAT_ACTIVITY_MIN_AGE_DEFAULT h,
       context_list =
         map (\<lambda>c. \<lparr> context_of = c, order_key = ORDER_MIN h c, order_desc = True \<rparr>)
           all_contexts \<rparr>"

definition init_screens :: "pgcenter_h \<Rightarrow> screen_s list" where
  "init_screens h = map (init_screen h) [0..<MAX_CONSOLE]"

text \<open>The columns \<^verbatim>\<open>min\<close> .. \<^verbatim>\<open>max\<close> of the \<^verbatim>\<open>switch\<close> of \<^verbatim>\<open>change_sort_order\<close>.\<close>

definition sort_range :: "pgcenter_h \<Rightarrow> query_context \<Rightarrow> int \<times> int" where
  "sort_range h c =
     (case c of
        pg_stat_database \<Rightarrow> (ORDER_MIN h pg_stat_database, ORDER_MAX h pg_stat_database)
      | pg_stat_replication \<Rightarrow> (ORDER_MIN h pg_stat_replication, ORDER_MAX h pg_stat_replication)
      | pg_stat_user_tables \<Rightarrow> (ORDER_MIN h pg_stat_user_tables, ORDER_MAX h pg_stat_user_tables)
      | pg_stat_user_indexes \<Rightarrow> (ORDER_MIN h pg_stat_user_indexes, ORDER_MAX h pg_stat_user_indexes)
      | pg_statio_user_tables \<Rightarrow>
          (ORDER_MIN h pg_statio_user_tables, ORDER_MAX h pg_statio_user_tables)
      | pg_tables_size \<Rightarrow> (ORDER_MIN h pg_tables_size - 3, ORDER_MAX h pg_tables_size)
      | pg_stat_activity_long \<Rightarrow>
          (ORDER_MIN h pg_stat_activity_long, ORDER_MIN h pg_stat_activity_long)
      | pg_stat_user_functions \<Rightarrow>
          (ORDER_MIN h pg_stat_user_functions, ORDER_MAX h pg_stat_user_functions))"

text \<open>
  \<^verbatim>\<open>change_sort_order\<close>: the new screen and the new value of \<^verbatim>\<open>*first_iter\<close>. Both
  loops visit every entry of \<^verbatim>\<open>context_list\<close> and change those of the current view.
\<close>

definition step_key :: "bool \<Rightarrow> int \<Rightarrow> int \<Rightarrow> int \<Rightarrow> int" where
  "step_key increment mn mx k =
     (if increment then (if k + 1 > mx then mn else k + 1)
      else (if k - 1 < mn then mx else k - 1))"

definition change_sort_order ::
  "pgcenter_h \<Rightarrow> screen_s \<Rightarrow> bool \<Rightarrow> bool \<Rightarrow> screen_s \<times> bool" where
  "change_sort_order h scr increment first_iter =
     (let (mn, mx) = sort_range h (current_context scr)
      in (scr\<lparr>context_list :=
               map (\<lambda>cl. if current_context scr = context_of cl
                         then cl\<lparr>order_key := step_key increment mn mx (order_key cl)\<rparr>
                         else cl)
                 (context_list scr)\<rparr>,
          if current_context scr = pg_stat_user_functions then True else first_iter))"

text \<open>
  The first loop of \<^verbatim>\<open>sort_array\<close> and of \<^verbatim>\<open>print_data\<close>: \<^verbatim>\<open>order_key\<close> and \<^verbatim>\<open>desc\<close> of
  the last entry of the current view; \<open>None\<close> when no entry is of that view and the two
  variables stay uninitialised.
\<close>

definition sort_state :: "screen_s \<Rightarrow> (int \<times> bool) option" where
  "sort_state scr =
     fold (\<lambda>cl acc. if current_context scr = context_of cl
                     then Some (order_key cl, order_desc cl) else acc)
       (context_list scr) None"

subsection \<open>\<^verbatim>\<open>sort_array\<close>\<close>

text \<open>
  The innermost loop exchanges the cells \<open>0 .. n_cols - 1\<close> of rows \<open>i\<close> and \<open>j\<close>
  through \<^verbatim>\<open>temp\<close>.
\<close>

definition swap_rows :: "string list list \<Rightarrow> nat \<Rightarrow> nat \<Rightarrow> nat \<Rightarrow> string list list" where
  "swap_rows a i j n_cols =
     a[i := map (\<lambda>x. a ! j ! x) [0..<n_cols] @ drop n_cols (a ! i),
       j := map (\<lambda>x. a ! i ! x) [0..<n_cols] @ drop n_cols (a ! j)]"

definition sort_step ::
  "bool \<Rightarrow> nat \<Rightarrow> nat \<Rightarrow> nat \<Rightarrow> nat \<Rightarrow> string list list \<Rightarrow> string list list" where
  "sort_step desc k n_cols i j a =
     (let a1 = (if desc \<and> atoll (a ! j ! k) > atoll (a ! i ! k)
                then swap_rows a i j n_cols else a)
      in if \<not> desc \<and> atoll (a1 ! i ! k) > atoll (a1 ! j ! k)
         then swap_rows a1 i j n_cols else a1)"

text \<open>The loop over \<open>j\<close> up to \<open>m\<close>, and the loop over \<open>i\<close> up to \<open>m\<close>.\<close>

definition sort_inner ::
  "bool \<Rightarrow> nat \<Rightarrow> nat \<Rightarrow> nat \<Rightarrow> nat \<Rightarrow> string list list \<Rightarrow> string list list" where
  "sort_inner desc k n_cols i m a = fold (sort_step desc k n_cols i) [Suc i..<m] a"

definition sort_outer ::
  "bool \<Rightarrow> nat \<Rightarrow> nat \<Rightarrow> nat \<Rightarrow> nat \<Rightarrow> string list list \<Rightarrow> string list list" where
  "sort_outer desc k n_cols n_rows m a =
     fold (\<lambda>i. sort_inner desc k n_cols i n_rows) [0..<m] a"

text \<open>
  \<^verbatim>\<open>sort_array\<close>. With fewer than two rows the loops compare nothing; otherwise a key
  outside the columns is read out of bounds.
\<close>

definition sort_array ::
  "pgcenter_h \<Rightarrow> string list list \<Rightarrow> nat \<Rightarrow> nat \<Rightarrow> screen_s \<Rightarrow> string list list option" where
  "sort_array h res_arr n_rows n_cols scr =
     (if current_context scr = pg_stat_user_functions then Some res_arr
      else
        (case sort_state scr of
           None \<Rightarrow> None
         | Some (key, desc) \<Rightarrow>
             if key = INVALID_ORDER_KEY h then Some res_arr
             else if 2 \<le> n_rows \<and> (key < 0 \<or> int n_cols \<le> key) then None
             else Some (sort_outer desc (nat key) n_cols n_rows n_rows res_arr)))"

text \<open>The order in which a sort on column \<open>k\<close> must leave the rows.\<close>

definition ordered_by :: "bool \<Rightarrow> nat \<Rightarrow> string list list \<Rightarrow> bool" where
  "ordered_by desc k a =
     sorted_wrt (\<lambda>r s. if desc then atoll (s ! k) \<le> atoll (r ! k)
                        else atoll (r ! k) \<le> atoll (s ! k)) a"

definition has_number :: "string \<Rightarrow> bool" where
  "has_number s =
     (case dropWhile isspace s of
        [] \<Rightarrow> False
      | c # cs \<Rightarrow>
          if c = CHR ''-'' \<or> c = CHR ''+'' then (case cs of [] \<Rightarrow> False | d # _ \<Rightarrow> isdigit d)
          else isdigit c)"

text \<open>
  An instance of the header, to run the model on examples. Its numbers are
  illustrative: the general theorems below hold for every header, and only the
  examples use this one.
\<close>

definition example_h :: pgcenter_h where
  "example_h =
     \<lparr> ORDER_MIN = (\<lambda>c. case c of pg_stat_activity_long \<Rightarrow> - 1 | pg_tables_size \<Rightarrow> 4
                          | pg_stat_user_functions \<Rightarrow> 2 | _ \<Rightarrow> 1),
       ORDER_MAX = (\<lambda>c. case c of pg_stat_activity_long \<Rightarrow> - 1 | pg_stat_database \<Rightarrow> 5
                          | pg_tables_size \<Rightarrow> 6 | _ \<Rightarrow> 3),
       PG_STAT_USER_FUNCTIONS_DIFF_COL = 3,
       INVALID_ORDER_KEY = - 1,
       DEFAULT_QUERY_CONTEXT = pg_stat_database,
       PG_STAT_ACTIVITY_MIN_AGE_DEFAULT = ''00:00:00'',
       BUFFERSIZE_S = 16,
       sizeof_min_age = 16 \<rparr>"

subsection \<open>The main loop\<close>

text \<open>
  What the program writes: a line on the standard output with \<^verbatim>\<open>puts\<close>, a text on
  the standard output or the standard error with \<^verbatim>\<open>fprintf\<close>, a message in the
  command window, or the table that \<^verbatim>\<open>print_data\<close> draws in the data window (the
  names of the columns, the highlighted column and the rows). Sleeping, the cursor and
  the summary window are left out.
\<close>

datatype event =
    Puts string
  | Fprintf_stdout string
  | Fprintf_stderr string
  | Wprintw_cmd string
  | Print_data "string list" int "string list list"

text \<open>
  Modelled from the spec: the macro \<^verbatim>\<open>PG_TUP_OK\<close> of \<^verbatim>\<open>pgcenter.h\<close>; the spec says
  that a query fails when the result status is not tuples-ok.
\<close>

definition PG_TUP_OK :: ExecStatusType where
  "PG_TUP_OK = PGRES_TUPLES_OK"

text \<open>\<^verbatim>\<open>do_query\<close>, given what \<^verbatim>\<open>PQexec\<close> returned.\<close>

definition do_query :: "PGresult option \<Rightarrow> PGresult option \<times> event list" where
  "do_query res =
     (if PQresultStatus res \<noteq> PG_TUP_OK then (None, [Puts ''We didn't get any data.''])
      else (res, []))"

text \<open>
  \<^verbatim>\<open>print_data\<close>: \<^verbatim>\<open>calculate_width\<close> copies every column name with \<^verbatim>\<open>strcpy\<close>, which
  is undefined for a name that \<^verbatim>\<open>PQfname\<close> does not have; the highlighted column is
  the order key of the current view.
\<close>

definition print_data ::
  "PGresult option \<Rightarrow> string list list \<Rightarrow> nat \<Rightarrow> nat \<Rightarrow> screen_s \<Rightarrow> event option" where
  "print_data res arr n_rows n_cols scr =
     (if list_all (\<lambda>j. PQfname res j \<noteq> None) [0..<n_cols]
      then
        (case sort_state scr of
           None \<Rightarrow> None
         | Some (key, desc) \<Rightarrow>
             Some (Print_data (map (\<lambda>j. the (PQfname res j)) [0..<n_cols]) key
                     (map (\<lambda>i. map (\<lambda>j. arr ! i ! j) [0..<n_cols]) [0..<n_rows])))
      else None)"

text \<open>
  The variables of \<^verbatim>\<open>main\<close> that outlive a pass of the loop. There is one
  \<^verbatim>\<open>first_iter\<close>, one \<^verbatim>\<open>p_res\<close> and one \<^verbatim>\<open>n_prev_rows\<close> for all consoles.
\<close>

record main_state =
  screens :: "screen_s list"
  console_no :: int
  console_index :: nat
  first_iter :: bool
  p_res :: "PGresult option"
  n_prev_rows :: int

text \<open>
  The state when the loop starts. \<^verbatim>\<open>n_prev_rows\<close> and \<^verbatim>\<open>p_res\<close> are not initialised
  by \<^verbatim>\<open>main\<close>: their first values \<open>n0\<close> and \<open>p0\<close> are whatever the stack holds.
\<close>

definition main_init :: "screen_s list \<Rightarrow> PGresult option \<Rightarrow> int \<Rightarrow> main_state" where
  "main_init scrs p0 n0 =
     \<lparr> screens = scrs, console_no = 1, console_index = 0, first_iter = True,
       p_res = p0, n_prev_rows = n0 \<rparr>"

text \<open>
  The \<^verbatim>\<open>else\<close> branch of the loop (no key is pending), from \<^verbatim>\<open>prepare_query\<close> on:
  \<open>ans\<close> is what \<^verbatim>\<open>PQexec\<close> returns for the query of the active console.
\<close>

definition tick ::
  "pgcenter_h \<Rightarrow> main_state \<Rightarrow> PGresult option \<Rightarrow> (main_state \<times> event list) option" where
  "tick h s ans =
     (let scr = screens s ! console_index s;
          (c_res, out) = do_query ans;
          n_rows = PQntuples c_res;
          n_cols = PQnfields c_res
      in if first_iter s then Some (s\<lparr>first_iter := False, p_res := c_res\<rparr>, out)
         else if n_prev_rows s < int n_rows
         then Some (s\<lparr>p_res := c_res, n_prev_rows := int n_rows\<rparr>, out)
         else
           (case pgrescpy (p_res s) n_rows n_cols of
              None \<Rightarrow> None
            | Some p_arr \<Rightarrow>
                (case pgrescpy c_res n_rows n_cols of
                   None \<Rightarrow> None
                 | Some c_arr \<Rightarrow>
                     (case sort_array h
                             (diff_arrays h p_arr c_arr (current_context scr) n_rows n_cols)
                             n_rows n_cols scr of
                        None \<Rightarrow> None
                      | Some r_arr \<Rightarrow>
                          (case print_data c_res r_arr n_rows n_cols scr of
                             None \<Rightarrow> None
                           | Some ev \<Rightarrow>
                               Some (s\<lparr>p_res := c_res, n_prev_rows := int n_rows\<rparr>,
                                     out @ [ev]))))))"

subsection \<open>The min age dialogue\<close>

definition ord :: "char \<Rightarrow> int" where
  "ord c = int (of_char c)"

definition KEY_BACKSPACE :: int where
  "KEY_BACKSPACE = 263"

definition KEY_DC :: int where
  "KEY_DC = 330"

definition ERR :: int where
  "ERR = - 1"

text \<open>
  \<^verbatim>\<open>cmd_readline\<close> on the keys that \<^verbatim>\<open>wgetch\<close> returns: \<open>str\<close> holds the bytes
  \<open>0 .. i - 1\<close> of the buffer, of \<open>sz\<close> bytes. The result is \<^verbatim>\<open>*with_esc\<close>, the
  bytes before the terminator and the keys left. A write past the buffer, and a
  return on \<^verbatim>\<open>ERR\<close> (which leaves \<^verbatim>\<open>*with_esc\<close> and the terminator unset), are
  \<open>None\<close>.
\<close>

fun cmd_readline :: "nat \<Rightarrow> string \<Rightarrow> int list \<Rightarrow> (bool \<times> string \<times> int list) option" where
  "cmd_readline sz str [] = None"
| "cmd_readline sz str (ch # rest) =
     (if ch = ERR then None
      else if ch = 27 then (if 0 < sz then Some (True, [], rest) else None)
      else if ch = 10 then (if length str < sz then Some (False, str, rest) else None)
      else if ch = KEY_BACKSPACE \<or> ch = KEY_DC \<or> ch = 127
      then cmd_readline sz (butlast str) rest
      else if length str < sz then cmd_readline sz (str @ [char_of ch]) rest
      else None)"

text \<open>The C string that starts a buffer: the bytes before the first zero.\<close>

definition c_str :: "string \<Rightarrow> string" where
  "c_str bs = takeWhile (\<lambda>c. c \<noteq> CHR 0x00) bs"

text \<open>
  One \<^verbatim>\<open>%u\<close> of \<^verbatim>\<open>sscanf\<close> (glibc, 64-bit \<^verbatim>\<open>long\<close>): white space is skipped, a sign
  is read, the digits are converted as \<^verbatim>\<open>strtoul\<close> does and the value is cut to
  32 bits.
\<close>

datatype scan = Input_failure | Matching_failure | Converted nat string

definition scan_u :: "string \<Rightarrow> scan" where
  "scan_u s =
     (case dropWhile isspace s of
        [] \<Rightarrow> Input_failure
      | c # cs \<Rightarrow>
          (let neg = (c = CHR ''-'');
               ds = (if c = CHR ''-'' \<or> c = CHR ''+'' then cs else c # cs)
           in if takeWhile isdigit ds = [] then Matching_failure
              else
                (let v = digits_value 0 ds;
                     w = (if 2 ^ 64 \<le> v then 2 ^ 64 - 1
                          else if neg then (2 ^ 64 - v) mod 2 ^ 64 else v)
                 in Converted (w mod 2 ^ 32) (dropWhile isdigit ds))))"

text \<open>
  \<^verbatim>\<open>sscanf(min_age, "%u:%u:%u", &hour, &min, &sec)\<close>: the value returned and the three
  variables, of which those not converted keep the values \<open>h0\<close>, \<open>m0\<close>, \<open>s0\<close> they
  had (they are not initialised by \<^verbatim>\<open>change_min_age\<close>).
\<close>

definition sscanf_u3 :: "string \<Rightarrow> nat \<times> nat \<times> nat \<Rightarrow> int \<times> nat \<times> nat \<times> nat" where
  "sscanf_u3 s g =
     (case g of (h0, m0, s0) \<Rightarrow>
        (case scan_u s of
           Input_failure \<Rightarrow> (- 1, h0, m0, s0)
         | Matching_failure \<Rightarrow> (0, h0, m0, s0)
         | Converted hour r1 \<Rightarrow>
             (case r1 of
                [] \<Rightarrow> (1, hour, m0, s0)
              | c1 # r1' \<Rightarrow>
                  if c1 \<noteq> CHR '':'' then (1, hour, m0, s0)
                  else
                    (case scan_u r1' of
                       Input_failure \<Rightarrow> (1, hour, m0, s0)
                     | Matching_failure \<Rightarrow> (1, hour, m0, s0)
                     | Converted mn r2 \<Rightarrow>
                         (case r2 of
                            [] \<Rightarrow> (2, hour, mn, s0)
                          | c2 # r2' \<Rightarrow>
                              if c2 \<noteq> CHR '':'' then (2, hour, mn, s0)
                              else
                                (case scan_u r2' of
                                   Input_failure \<Rightarrow> (2, hour, mn, s0)
                                 | Matching_failure \<Rightarrow> (2, hour, mn, s0)
                                 | Converted sec r3 \<Rightarrow> (3, hour, mn, sec)))))))"

text \<open>
  \<^verbatim>\<open>change_min_age\<close>: \<open>g\<close> holds the values of \<^verbatim>\<open>hour\<close>, \<^verbatim>\<open>min\<close> and \<^verbatim>\<open>sec\<close> before
  \<^verbatim>\<open>sscanf\<close>. The result is the screen, the messages in the command window after the
  prompt and the keys left.
\<close>

definition change_min_age ::
  "pgcenter_h \<Rightarrow> nat \<times> nat \<times> nat \<Rightarrow> screen_s \<Rightarrow> int list
     \<Rightarrow> (screen_s \<times> event list \<times> int list) option" where
  "change_min_age h g scr keys =
     (case cmd_readline (BUFFERSIZE_S h) [] keys of
        None \<Rightarrow> None
      | Some (with_esc, str, rest) \<Rightarrow>
          (let min_age = c_str str
           in if length min_age \<noteq> 0 \<and> with_esc = False
              then
                (case sscanf_u3 min_age g of (n, hour, mn, sec) \<Rightarrow>
                   if n = 0 \<or> (hour > 23 \<or> mn > 59 \<or> sec > 59)
                   then Some (scr,
                          [Wprintw_cmd ''Nothing to do. Failed read or invalid value.''], rest)
                   else Some (scr\<lparr>pg_stat_activity_min_age :=
                                     take (sizeof_min_age h - 1) min_age\<rparr>, [], rest))
              else if length min_age = 0 \<and> with_esc = False
              then Some (scr,
                     [Wprintw_cmd (''Nothing to do. Leave min age '' @
                        pg_stat_activity_min_age scr)], rest)
              else Some (scr, [Wprintw_cmd ''Do nothing. Operation canceled. ''], rest)))"

subsection \<open>Keys\<close>

text \<open>
  \<^verbatim>\<open>switch_conn\<close>, with \<open>ci\<close> for \<^verbatim>\<open>console_index\<close> and \<open>cn\<close> for \<^verbatim>\<open>console_no\<close>: the
  new console index and the message.
\<close>

definition switch_conn :: "screen_s list \<Rightarrow> int \<Rightarrow> nat \<Rightarrow> int \<Rightarrow> nat \<times> event list" where
  "switch_conn scrs ch ci cn =
     (if conn_used (scrs ! nat (ch - ord CHR ''0'' - 1))
      then (nat (ch - ord CHR ''0'' - 1),
            [Wprintw_cmd (''Switch to another pgbouncer connection (console '' @
               lli_format (ch - ord CHR ''0'') @ '')'')])
      else (ci,
            [Wprintw_cmd
               (''Do not switch because no connection associated (stay on console '' @
                lli_format cn @ '')'')]))"

definition set_context :: "main_state \<Rightarrow> query_context \<Rightarrow> main_state" where
  "set_context s c =
     s\<lparr>screens := (screens s)[console_index s :=
                     (screens s ! console_index s)\<lparr>current_context := c\<rparr>],
       first_iter := True\<rparr>"

text \<open>
  The \<^verbatim>\<open>if\<close> branch of the loop: \<open>ch\<close> is the pending key and \<open>rest\<close> are the keys
  after it, which the arrows and the min age dialogue read on.
\<close>

definition key_press ::
  "pgcenter_h \<Rightarrow> nat \<times> nat \<times> nat \<Rightarrow> main_state \<Rightarrow> int \<Rightarrow> int list
     \<Rightarrow> (main_state \<times> event list \<times> int list) option" where
  "key_press h g s ch rest =
     (let scr = screens s ! console_index s
      in if ord CHR ''1'' \<le> ch \<and> ch \<le> ord CHR ''8''
         then
           (case switch_conn (screens s) ch (console_index s) (console_no s) of
              (ci, out) \<Rightarrow> Some (s\<lparr>console_index := ci, console_no := int ci + 1\<rparr>, out, rest))
         else if ch = 27
         then
           (case drop 1 rest of
              [] \<Rightarrow> Some (s, [], [])
            | k # rest' \<Rightarrow>
                if k = ord CHR ''C'' \<or> k = ord CHR ''D''
                then
                  (case change_sort_order h scr (k = ord CHR ''C'') (first_iter s) of
                     (scr', fi) \<Rightarrow>
                       Some (s\<lparr>screens := (screens s)[console_index s := scr'],
                               first_iter := fi\<rparr>, [], rest'))
                else Some (s, [], rest'))
         else if ch = ord CHR ''d''
         then Some (set_context s pg_stat_database, [Wprintw_cmd ''Show pg_stat_database''], rest)
         else if ch = ord CHR ''r''
         then Some (set_context s pg_stat_replication,
                [Wprintw_cmd ''Show pg_stat_replication''], rest)
         else if ch = ord CHR ''t''
         then Some (set_context s pg_stat_user_tables,
                [Wprintw_cmd ''Show pg_stat_user_tables''], rest)
         else if ch = ord CHR ''i''
         then Some (set_context s pg_stat_user_indexes,
                [Wprintw_cmd ''Show pg_stat_user_indexes''], rest)
         else if ch = ord CHR ''y''
         then Some (set_context s pg_statio_user_tables,
                [Wprintw_cmd ''Show pg_statio_user_tables''], rest)
         else if ch = ord CHR ''s''
         then Some (set_context s pg_tables_size, [Wprintw_cmd ''Show relations sizes''], rest)
         else if ch = ord CHR ''l''
         then Some (set_context s pg_stat_activity_long,
                [Wprintw_cmd
                   (''Show long transactions (transactions and queries threshold: '' @
                    pg_stat_activity_min_age scr @ '')'')], rest)
         else if ch = ord CHR ''m''
         then
           (if current_context scr = pg_stat_activity_long
            then
              (case change_min_age h g scr rest of
                 None \<Rightarrow> None
               | Some (scr', out, rest') \<Rightarrow>
                   Some (s\<lparr>screens := (screens s)[console_index s := scr'],
                           first_iter := True\<rparr>,
                         Wprintw_cmd ''Enter new min age, format: HH:MM:SS[.NN]: '' # out,
                         rest'))
            else Some (s, [Wprintw_cmd ''Not allowed here.''], rest))
         else if ch = ord CHR ''f''
         then Some (set_context s pg_stat_user_functions,
                [Wprintw_cmd ''Show pg_stat_user_functions''], rest)
         else Some (s, [Wprintw_cmd ''Unknown command - try 'h' for help.''], rest))"

subsection \<open>The CPU line\<close>

record stats_cpu_struct =
  cpu_user :: "64 word"
  cpu_nice :: "64 word"
  cpu_sys :: "64 word"
  cpu_idle :: "64 word"
  cpu_iowait :: "64 word"
  cpu_steal :: "64 word"
  cpu_hardirq :: "64 word"
  cpu_softirq :: "64 word"
  cpu_guest :: "64 word"
  cpu_guest_nice :: "64 word"

text \<open>The sum that \<^verbatim>\<open>read_cpu_stat\<close> stores in \<^verbatim>\<open>*uptime\<close>.\<close>

definition cpu_total :: "stats_cpu_struct \<Rightarrow> 64 word" where
  "cpu_total c =
     cpu_user c + cpu_nice c + cpu_sys c + cpu_idle c + cpu_iowait c + cpu_steal c +
     cpu_hardirq c + cpu_softirq c + cpu_guest c + cpu_guest_nice c"

definition get_interval :: "64 word \<Rightarrow> 64 word \<Rightarrow> 64 word" where
  "get_interval prev_uptime curr_uptime =
     (let itv = curr_uptime - prev_uptime in if itv = 0 then 1 else itv)"

text \<open>
  Modelled from the spec: the macro \<^verbatim>\<open>SP_VALUE\<close> of \<^verbatim>\<open>pgcenter.h\<close>, which is not
  among the sources. The spec gives \<open>pct = 100 \<cdot> (curr.X - prev.X) / interval\<close>; the
  difference is taken in \<^verbatim>\<open>unsigned long long\<close> as \<^verbatim>\<open>ll_sp_value\<close> passes it, and the
  \<^verbatim>\<open>double\<close> arithmetic is read as arithmetic of real numbers, without rounding.
\<close>

definition SP_VALUE :: "64 word \<Rightarrow> 64 word \<Rightarrow> 64 word \<Rightarrow> real" where
  "SP_VALUE m n p = real (unat (n - m)) / real (unat p) * 100"

definition ll_sp_value :: "64 word \<Rightarrow> 64 word \<Rightarrow> 64 word \<Rightarrow> real" where
  "ll_sp_value value1 value2 itv = (if value2 < value1 then 0 else SP_VALUE value1 value2 itv)"

text \<open>The eight numbers of the line that \<^verbatim>\<open>write_cpu_stat_raw\<close> prints.\<close>

record cpu_line =
  pct_us :: real
  pct_sy :: real
  pct_ni :: real
  pct_id :: real
  pct_wa :: real
  pct_hi :: real
  pct_si :: real
  pct_st :: real

definition write_cpu_stat_raw ::
  "stats_cpu_struct \<Rightarrow> stats_cpu_struct \<Rightarrow> 64 word \<Rightarrow> cpu_line" where
  "write_cpu_stat_raw st_prev st_curr itv =
     \<lparr> pct_us = ll_sp_value (cpu_user st_prev) (cpu_user st_curr) itv,
       pct_sy = ll_sp_value (cpu_sys st_prev + cpu_softirq st_prev + cpu_hardirq st_prev)
                  (cpu_sys st_curr + cpu_softirq st_curr + cpu_hardirq st_curr) itv,
       pct_ni = ll_sp_value (cpu_nice st_prev) (cpu_nice st_curr) itv,
       pct_id = (if cpu_idle st_curr < cpu_idle st_prev then 0
                 else ll_sp_value (cpu_idle st_prev) (cpu_idle st_curr) itv),
       pct_wa = ll_sp_value (cpu_iowait st_prev) (cpu_iowait st_curr) itv,
       pct_hi = ll_sp_value (cpu_hardirq st_prev) (cpu_hardirq st_curr) itv,
       pct_si = ll_sp_value (cpu_softirq st_prev) (cpu_softirq st_curr) itv,
       pct_st = ll_sp_value (cpu_steal st_prev) (cpu_steal st_curr) itv \<rparr>"

text \<open>
  The line of one pass of \<^verbatim>\<open>print_cpu_usage\<close>, from the previous and the current
  sample: the interval is taken between the two totals.
\<close>

definition print_cpu_usage :: "stats_cpu_struct \<Rightarrow> stats_cpu_struct \<Rightarrow> cpu_line" where
  "print_cpu_usage st_prev st_curr =
     write_cpu_stat_raw st_prev st_curr (get_interval (cpu_total st_prev) (cpu_total st_curr))"

subsection \<open>The connection file\<close>

text \<open>
  What \<^verbatim>\<open>create_pgcenterrc_conn\<close> finds at \<^verbatim>\<open>pgcenterrc_path\<close>: the mode that
  \<^verbatim>\<open>stat\<close> reports, whether \<^verbatim>\<open>fopen\<close> succeeds, and the lines that \<^verbatim>\<open>fgets\<close> returns
  one after the other. \<open>None\<close> is no file (\<^verbatim>\<open>access\<close> fails).
\<close>

record rc_file =
  st_mode :: "32 word"
  can_open :: bool
  rc_lines :: "string list"

datatype rc_status = PGCENTERRC_READ_OK | PGCENTERRC_READ_ERR

text \<open>The permission bits of the group (octal 070) and of the others (octal 007).\<close>

definition S_IRWXG :: "32 word" where
  "S_IRWXG = 0x38"

definition S_IRWXO :: "32 word" where
  "S_IRWXO = 0x07"

text \<open>
  A conversion \<^verbatim>\<open>%[^...]\<close> of \<^verbatim>\<open>sscanf\<close>: the longest start of the input without a
  byte of \<open>stop\<close>; it fails on an empty match.
\<close>

definition scan_set :: "char list \<Rightarrow> string \<Rightarrow> (string \<times> string) option" where
  "scan_set stop s =
     (let m = takeWhile (\<lambda>c. c \<notin> set stop) s
      in if m = [] then None else Some (m, dropWhile (\<lambda>c. c \<notin> set stop) s))"

text \<open>
  The fields that the \<^verbatim>\<open>sscanf\<close> of a line converts, in the order host, port, dbname,
  user, password: it stops at the first conversion or colon that does not match.
\<close>

fun scan_fields :: "nat \<Rightarrow> string \<Rightarrow> string list" where
  "scan_fields 0 s = []"
| "scan_fields (Suc 0) s =
     (case scan_set [CHR '':'', CHR 0x0A] s of None \<Rightarrow> [] | Some (m, r) \<Rightarrow> [m])"
| "scan_fields (Suc n) s =
     (case scan_set [CHR '':''] s of
        None \<Rightarrow> []
      | Some (m, r) \<Rightarrow>
          (case r of
             [] \<Rightarrow> [m]
           | c # r' \<Rightarrow> if c = CHR '':'' then m # scan_fields n r' else [m]))"

definition rc_line :: "screen_s \<Rightarrow> nat \<Rightarrow> string \<Rightarrow> screen_s" where
  "rc_line scr i strbuf =
     (let fs = scan_fields 5 strbuf
      in scr\<lparr> host := (if 0 < length fs then fs ! 0 else host scr),
              port := (if 1 < length fs then fs ! 1 else port scr),
              dbname := (if 2 < length fs then fs ! 2 else dbname scr),
              user := (if 3 < length fs then fs ! 3 else user scr),
              password := (if 4 < length fs then fs ! 4 else password scr),
              screen := int i,
              conn_used := True \<rparr>)"

text \<open>
  The loop over the lines: \<^verbatim>\<open>screens[i]\<close> with \<open>i\<close> past the last console is a write
  out of bounds.
\<close>

fun rc_loop :: "screen_s list \<Rightarrow> nat \<Rightarrow> string list \<Rightarrow> screen_s list option" where
  "rc_loop scrs i [] = Some scrs"
| "rc_loop scrs i (l # ls) =
     (if i < length scrs then rc_loop (scrs[i := rc_line (scrs ! i) i l]) (Suc i) ls
      else None)"

definition create_pgcenterrc_conn ::
  "string \<Rightarrow> rc_file option \<Rightarrow> screen_s list \<Rightarrow> nat
     \<Rightarrow> (rc_status \<times> screen_s list \<times> event list) option" where
  "create_pgcenterrc_conn pgcenterrc_path file scrs pos =
     (case file of
        None \<Rightarrow> Some (PGCENTERRC_READ_ERR, scrs, [])
      | Some f \<Rightarrow>
          if st_mode f AND (S_IRWXG OR S_IRWXO) \<noteq> 0
          then Some (PGCENTERRC_READ_ERR, scrs,
                 [Fprintf_stderr
                    (''WARNING: '' @ pgcenterrc_path @ '' has wrong permissions.'' @
                     [CHR 0x0A])])
          else if can_open f
          then (case rc_loop scrs pos (rc_lines f) of
                  None \<Rightarrow> None
                | Some scrs' \<Rightarrow> Some (PGCENTERRC_READ_OK, scrs', []))
          else Some (PGCENTERRC_READ_ERR, scrs,
                 [Fprintf_stdout
                    (''WARNING: failed to open '' @ pgcenterrc_path @
                     ''. Try use defaults.'' @ [CHR 0x0A])]))"

subsection \<open>Notions used in the statements\<close>

text \<open>The number by which \<^verbatim>\<open>sort_array\<close> compares a row, larger first.\<close>

definition row_key :: "bool \<Rightarrow> nat \<Rightarrow> string list \<Rightarrow> int" where
  "row_key desc k r = (if desc then atoll (r ! k) else - atoll (r ! k))"

text \<open>
  The screen after an arrow key (right when \<open>increment\<close>), and the order key of the
  current view of a screen.
\<close>

definition press :: "pgcenter_h \<Rightarrow> bool \<Rightarrow> screen_s \<Rightarrow> screen_s" where
  "press h increment scr = fst (change_sort_order h scr increment False)"

definition shown_key :: "screen_s \<Rightarrow> int option" where
  "shown_key scr = map_option fst (sort_state scr)"

text \<open>The screen of console \<open>0\<close> after \<^verbatim>\<open>init_screens\<close>, switched to view \<open>c\<close>.\<close>

definition view_screen :: "pgcenter_h \<Rightarrow> query_context \<Rightarrow> screen_s" where
  "view_screen h c = (init_screen h 0)\<lparr>current_context := c\<rparr>"

text \<open>Two small arrays for the examples.\<close>

definition functions_rows :: "string list list" where
  "functions_rows = [[''f'', ''0'', ''1''], [''g'', ''0'', ''2'']]"

definition tables_rows :: "string list list" where
  "tables_rows = [[''t1'', ''5''], [''t2'', ''9''], [''t3'', ''7'']]"

text \<open>
  The order key shown in view \<open>c\<close> after \<open>k\<close> arrow keys (right when \<open>increment\<close>),
  starting from the screen that \<^verbatim>\<open>init_screens\<close> makes.
\<close>

definition key_after :: "pgcenter_h \<Rightarrow> bool \<Rightarrow> nat \<Rightarrow> query_context \<Rightarrow> int option" where
  "key_after h increment k c = shown_key ((press h increment ^^ k) (view_screen h c))"

text \<open>
  Results and states for the examples: a result of two columns with the given rows, a
  result of a failed query, two consoles with a connection in the view of the user
  tables, and a state of the loop after a first pass.
\<close>

definition example_result :: "string list list \<Rightarrow> PGresult" where
  "example_result rows =
     \<lparr> resultStatus = PGRES_TUPLES_OK, attnames = [''relname'', ''seq_scan''],
       tuples = rows \<rparr>"

definition failed_result :: PGresult where
  "failed_result = \<lparr> resultStatus = PGRES_FATAL_ERROR, attnames = [], tuples = [] \<rparr>"

definition example_screens :: "screen_s list" where
  "example_screens =
     (init_screens example_h)
       [0 := (view_screen example_h pg_stat_user_tables)\<lparr>conn_used := True\<rparr>,
        1 := (view_screen example_h pg_stat_user_tables)\<lparr>screen := 1, conn_used := True\<rparr>]"

definition example_state :: main_state where
  "example_state =
     \<lparr> screens = example_screens, console_no = 1, console_index = 0, first_iter = False,
       p_res = Some (example_result [[''t1'', ''5'']]), n_prev_rows = 1 \<rparr>"

definition tables_rows_later :: "string list list" where
  "tables_rows_later = [[''t1'', ''6''], [''t2'', ''19''], [''t3'', ''7'']]"

text \<open>
  The percentage as the spec words it: the interval between two totals, at least 1,
  and \<open>100 \<cdot> (curr.X - prev.X) / interval\<close>, or 0 when the counter went back. Two
  samples for the examples: the user counter goes from 100 back to 90.
\<close>

definition spec_interval :: "64 word \<Rightarrow> 64 word \<Rightarrow> nat" where
  "spec_interval prev_total curr_total = max (unat (curr_total - prev_total)) 1"

definition spec_pct :: "nat \<Rightarrow> 64 word \<Rightarrow> 64 word \<Rightarrow> real" where
  "spec_pct interval x_prev x_curr =
     (if x_curr < x_prev then 0
      else 100 * (real (unat x_curr) - real (unat x_prev)) / real interval)"

definition example_cpu_prev :: stats_cpu_struct where
  "example_cpu_prev =
     \<lparr> cpu_user = 100, cpu_nice = 0, cpu_sys = 10, cpu_idle = 50, cpu_iowait = 0,
       cpu_steal = 0, cpu_hardirq = 0, cpu_softirq = 0, cpu_guest = 0, cpu_guest_nice = 0 \<rparr>"

definition example_cpu_curr :: stats_cpu_struct where
  "example_cpu_curr =
     \<lparr> cpu_user = 90, cpu_nice = 0, cpu_sys = 30, cpu_idle = 60, cpu_iowait = 0,
       cpu_steal = 0, cpu_hardirq = 0, cpu_softirq = 0, cpu_guest = 0, cpu_guest_nice = 0 \<rparr>"

text \<open>
  The keys of a line typed and committed with Enter, and the bytes that
  \<^verbatim>\<open>cmd_readline\<close> stores as they are.
\<close>

definition typed :: "string \<Rightarrow> int list" where
  "typed s = map ord s @ [10]"

definition printable :: "char \<Rightarrow> bool" where
  "printable c = (ord c \<noteq> 27 \<and> ord c \<noteq> 10 \<and> ord c \<noteq> 127 \<and> ord c \<noteq> 0)"

text \<open>
  A connection file of a regular file with mode 0600 (octal 0100600) and two lines.
\<close>

definition example_path :: string where
  "example_path = ''/home/u/.pgcenterrc''"

definition example_rc :: rc_file where
  "example_rc =
     \<lparr> st_mode = 0x8180, can_open = True,
       rc_lines = [''db1:5432:postgres:alice:secret'' @ [CHR 0x0A],
                   ''db2:5433:app:bob:pw'' @ [CHR 0x0A]] \<rparr>"

section \<open>Properties\<close>

subsection \<open>Parsing and printing 64-bit integers\<close>

lemma digits_value_nodigit:
  "(case cs of [] \<Rightarrow> True | d # _ \<Rightarrow> \<not> isdigit d) \<Longrightarrow> digits_value a cs = a"
  by (cases cs) auto

lemma atoll_no_number: "\<not> has_number s \<Longrightarrow> atoll s = 0"
proof (cases "dropWhile isspace s")
  case Nil
  show ?thesis unfolding atoll_def Nil by simp
next
  case (Cons c cs)
  assume n: "\<not> has_number s"
  show ?thesis
  proof (cases "c = CHR ''-'' \<or> c = CHR ''+''")
    case True
    with n Cons have "digits_value 0 cs = 0"
      by (intro digits_value_nodigit) (auto simp: has_number_def split: list.splits)
    with True Cons show ?thesis
      by (auto simp: atoll_def LLONG_MIN_def LLONG_MAX_def)
  next
    case False
    with n Cons have "\<not> isdigit c" by (simp add: has_number_def)
    with False Cons show ?thesis
      by (simp add: atoll_def LLONG_MAX_def)
  qed
qed

lemma atoll_range: "LLONG_MIN \<le> atoll s \<and> atoll s \<le> LLONG_MAX"
  unfolding atoll_def
  by (auto split: list.splits simp: LLONG_MIN_def LLONG_MAX_def)

lemma ll_sub_exact: "LLONG_MIN \<le> a - b \<Longrightarrow> a - b \<le> LLONG_MAX \<Longrightarrow> ll_sub a b = a - b"
  unfolding ll_sub_def LLONG_MIN_def LLONG_MAX_def
  by simp

lemma ll_sub_range: "LLONG_MIN \<le> ll_sub a b \<and> ll_sub a b \<le> LLONG_MAX"
  unfolding ll_sub_def LLONG_MIN_def LLONG_MAX_def
  using pos_mod_bound[of "2 ^ 64" "a - b + 2 ^ 63"] pos_mod_sign[of "2 ^ 64" "a - b + 2 ^ 63"]
  by simp

lemma digit_val_char: "d < 10 \<Longrightarrow> isdigit (digit_char d) \<and> digit_val (digit_char d) = d"
proof -
  assume "d < 10"
  then have "d \<in> set [0, 1, 2, 3, 4, 5, 6, 7, 8, 9]" by auto
  then show ?thesis
    by (auto simp: digit_char_def isdigit_def digit_val_def)
qed

lemma decimal_digits: "list_all isdigit (decimal n) \<and> decimal n \<noteq> []"
proof (induction n rule: decimal.induct)
  case (1 n)
  show ?case
  proof (cases "n < 10")
    case True
    then show ?thesis using digit_val_char[of n] by (simp add: decimal.simps[of n])
  next
    case False
    then show ?thesis
      using 1 digit_val_char[of "n mod 10"] by (simp add: decimal.simps[of n])
  qed
qed

lemma digits_value_decimal: "digits_value 0 (decimal n @ rest) = digits_value n rest"
proof (induction n arbitrary: rest rule: decimal.induct)
  case (1 n)
  show ?case
  proof (cases "n < 10")
    case True
    then show ?thesis using digit_val_char[of n] by (simp add: decimal.simps[of n])
  next
    case False
    have "digits_value 0 (decimal n @ rest) =
            digits_value 0 (decimal (n div 10) @ (digit_char (n mod 10) # rest))"
      using False by (simp add: decimal.simps[of n])
    also have "\<dots> = digits_value (n div 10) (digit_char (n mod 10) # rest)"
      using 1[OF False] by simp
    also have "\<dots> = digits_value n rest"
      using digit_val_char[of "n mod 10"] by simp
    finally show ?thesis .
  qed
qed

lemma decimal_hd:
  "\<not> isspace (hd (decimal n)) \<and> hd (decimal n) \<noteq> CHR ''-'' \<and> hd (decimal n) \<noteq> CHR ''+''"
proof -
  from decimal_digits[of n] have "isdigit (hd (decimal n))"
    by (cases "decimal n") auto
  then show ?thesis
    by (auto simp: isdigit_def isspace_def)
qed

lemma atoll_decimal: "int n \<le> LLONG_MAX \<Longrightarrow> atoll (decimal n) = int n"
proof -
  assume b: "int n \<le> LLONG_MAX"
  obtain c cs where d: "decimal n = c # cs"
    using decimal_digits[of n] by (cases "decimal n") auto
  have h: "\<not> isspace c" "c \<noteq> CHR ''-''" "c \<noteq> CHR ''+''"
    using decimal_hd[of n] d by auto
  have "digits_value 0 (c # cs) = n" using digits_value_decimal[of n "[]"] d by simp
  then show ?thesis using h b d by (simp add: atoll_def)
qed

text \<open>
  What \<^verbatim>\<open>%lli\<close> prints is read back by \<^verbatim>\<open>atoll\<close> as the same number: \<open>lli_format\<close>
  is the decimal notation of a \<^verbatim>\<open>long long\<close>.
\<close>

lemma atoll_lli_format:
  "LLONG_MIN \<le> x \<Longrightarrow> x \<le> LLONG_MAX \<Longrightarrow> atoll (lli_format x) = x"
proof (cases "x < 0")
  case True
  assume b: "LLONG_MIN \<le> x"
  have "digits_value 0 (decimal (nat (- x))) = nat (- x)"
    using digits_value_decimal[of "nat (- x)" "[]"] by simp
  then show ?thesis using True b by (simp add: atoll_def lli_format_def isspace_def)
next
  case False
  assume "x \<le> LLONG_MAX"
  then show ?thesis using False atoll_decimal[of "nat x"] by (simp add: lli_format_def)
qed

subsection \<open>\<^verbatim>\<open>diff_arrays\<close>\<close>

lemma diff_arrays_shaped: "shaped (diff_arrays h p_arr c_arr c n_rows n_cols) n_rows n_cols"
  by (auto simp: diff_arrays_def shaped_def list_all_iff split: prod.splits)

lemma diff_arrays_nth:
  "i < n_rows \<Longrightarrow> j < n_cols \<Longrightarrow>
   diff_arrays h p_arr c_arr c n_rows n_cols ! i ! j =
     diff_cell (fst (diff_range h c)) (snd (diff_range h c)) (p_arr ! i ! j) (c_arr ! i ! j) j"
  by (simp add: diff_arrays_def split: prod.splits)

lemma shaped_eqI:
  assumes "shaped a n m" "shaped b n m" "\<And>i j. i < n \<Longrightarrow> j < m \<Longrightarrow> a ! i ! j = b ! i ! j"
  shows "a = b"
proof (rule nth_equalityI)
  show "length a = length b" using assms by (simp add: shaped_def)
next
  fix i assume i: "i < length a"
  then have la: "length (a ! i) = m" and lb: "length (b ! i) = m" and "i < n"
    using assms(1,2) by (auto simp: shaped_def list_all_length)
  then show "a ! i = b ! i"
    using assms(3) by (intro nth_equalityI) auto
qed

lemma diff_range_macros:
  "diff_range h c =
     (if c = pg_stat_user_functions then PG_STAT_USER_FUNCTIONS_DIFF_COL h else ORDER_MIN h c,
      if c = pg_stat_user_functions then PG_STAT_USER_FUNCTIONS_DIFF_COL h else ORDER_MAX h c)"
  by (cases c) (simp_all add: diff_range_def)

lemma atoll_bounds: "- (2 ^ 63) \<le> atoll s \<and> atoll s < 2 ^ 63"
  using atoll_range[of s] by (simp add: LLONG_MIN_def LLONG_MAX_def)

lemma ll_sub_wrap: "ll_sub a b = (a - b + 2 ^ 63) mod 2 ^ 64 - 2 ^ 63"
  by (simp add: ll_sub_def)

lemma ll_sub_fits:
  assumes "- (2 ^ 63) \<le> a - b" "a - b < 2 ^ 63"
  shows "ll_sub a b = a - b" "atoll (lli_format (ll_sub a b)) = a - b"
proof -
  show e: "ll_sub a b = a - b"
    using assms by (intro ll_sub_exact) (simp_all add: LLONG_MIN_def LLONG_MAX_def)
  show "atoll (lli_format (ll_sub a b)) = a - b"
    unfolding e using assms by (intro atoll_lli_format) (simp_all add: LLONG_MIN_def LLONG_MAX_def)
qed

lemma example_cells:
  "atoll ''10'' = 10" "atoll ''25'' = 25" "atoll ''7'' = 7" "atoll ''5'' = 5" "atoll ''2'' = 2"
  "atoll ''x'' = 0" "atoll ''db'' = 0" "atoll ''-3'' = - 3"
  "lli_format 15 = ''15''" "lli_format 7 = ''7''" "lli_format (- 3) = ''-3''"
  by (simp_all add: atoll_def isspace_def isdigit_def digit_val_def LLONG_MAX_def LLONG_MIN_def
      lli_format_def decimal.simps digit_char_def)

lemma less_4_cases: "j < (4::nat) \<Longrightarrow> j = 0 \<or> j = 1 \<or> j = 2 \<or> j = 3"
  by arith

text \<open>
  C5. For a previous and a current array of the same shape, \<^verbatim>\<open>diff_arrays\<close> returns an
  array of that shape (it has no failing run). The columns \<open>min .. max\<close> are those
  between \<^verbatim>\<open>ORDER_MIN\<close> and \<^verbatim>\<open>ORDER_MAX\<close> of the view, and the one column
  \<^verbatim>\<open>PG_STAT_USER_FUNCTIONS_DIFF_COL\<close> for \<^verbatim>\<open>pg_stat_user_functions\<close>. A cell of a column
  within \<open>min .. max\<close> is the decimal notation of what \<^verbatim>\<open>atoll\<close> reads in the current
  cell minus what it reads in the previous cell, reduced to the range of \<^verbatim>\<open>long long\<close>:
  when the difference lies in that range the cell is its decimal notation and
  \<^verbatim>\<open>atoll\<close> reads the difference back from it. Every other cell is the current cell.
  \<^verbatim>\<open>atoll\<close> reads 0 in a cell that does not start with a number, and a value in the
  range of \<^verbatim>\<open>long long\<close> in every cell. When no column lies within \<open>min .. max\<close> the
  result is the current array.
\<close>

theorem diff_arrays_spec:
  assumes "shaped p_arr n_rows n_cols" and "shaped c_arr n_rows n_cols"
    and "mn = (if c = pg_stat_user_functions then PG_STAT_USER_FUNCTIONS_DIFF_COL h
               else ORDER_MIN h c)"
    and "mx = (if c = pg_stat_user_functions then PG_STAT_USER_FUNCTIONS_DIFF_COL h
               else ORDER_MAX h c)"
    and "d = diff_arrays h p_arr c_arr c n_rows n_cols"
  shows "shaped d n_rows n_cols \<and>
    (\<forall>i<n_rows. \<forall>j<n_cols.
       if mn \<le> int j \<and> int j \<le> mx
       then d ! i ! j =
              lli_format
                ((atoll (c_arr ! i ! j) - atoll (p_arr ! i ! j) + 2 ^ 63) mod 2 ^ 64 - 2 ^ 63) \<and>
            (- (2 ^ 63) \<le> atoll (c_arr ! i ! j) - atoll (p_arr ! i ! j) \<and>
             atoll (c_arr ! i ! j) - atoll (p_arr ! i ! j) < 2 ^ 63 \<longrightarrow>
               d ! i ! j = lli_format (atoll (c_arr ! i ! j) - atoll (p_arr ! i ! j)) \<and>
               atoll (d ! i ! j) = atoll (c_arr ! i ! j) - atoll (p_arr ! i ! j))
       else d ! i ! j = c_arr ! i ! j) \<and>
    (\<forall>s. \<not> has_number s \<longrightarrow> atoll s = 0) \<and>
    (\<forall>s. - (2 ^ 63) \<le> atoll s \<and> atoll s < 2 ^ 63) \<and>
    ((\<forall>j<n_cols. int j < mn \<or> mx < int j) \<longrightarrow> d = c_arr)"
proof -
  have r: "fst (diff_range h c) = mn" "snd (diff_range h c) = mx"
    using assms(3,4) by (simp_all add: diff_range_macros)
  have 1: "shaped d n_rows n_cols" unfolding assms(5) by (rule diff_arrays_shaped)
  have cell: "d ! i ! j = diff_cell mn mx (p_arr ! i ! j) (c_arr ! i ! j) j"
    if "i < n_rows" "j < n_cols" for i j
    using that by (simp add: assms(5) diff_arrays_nth r)
  have 2: "\<forall>i<n_rows. \<forall>j<n_cols.
       if mn \<le> int j \<and> int j \<le> mx
       then d ! i ! j =
              lli_format
                ((atoll (c_arr ! i ! j) - atoll (p_arr ! i ! j) + 2 ^ 63) mod 2 ^ 64 - 2 ^ 63) \<and>
            (- (2 ^ 63) \<le> atoll (c_arr ! i ! j) - atoll (p_arr ! i ! j) \<and>
             atoll (c_arr ! i ! j) - atoll (p_arr ! i ! j) < 2 ^ 63 \<longrightarrow>
               d ! i ! j = lli_format (atoll (c_arr ! i ! j) - atoll (p_arr ! i ! j)) \<and>
               atoll (d ! i ! j) = atoll (c_arr ! i ! j) - atoll (p_arr ! i ! j))
       else d ! i ! j = c_arr ! i ! j"
  proof (intro allI impI)
    fix i j assume ij: "i < n_rows" "j < n_cols"
    let ?a = "atoll (c_arr ! i ! j)" and ?b = "atoll (p_arr ! i ! j)"
    show "if mn \<le> int j \<and> int j \<le> mx
       then d ! i ! j = lli_format ((?a - ?b + 2 ^ 63) mod 2 ^ 64 - 2 ^ 63) \<and>
            (- (2 ^ 63) \<le> ?a - ?b \<and> ?a - ?b < 2 ^ 63 \<longrightarrow>
               d ! i ! j = lli_format (?a - ?b) \<and> atoll (d ! i ! j) = ?a - ?b)
       else d ! i ! j = c_arr ! i ! j"
    proof (cases "mn \<le> int j \<and> int j \<le> mx")
      case False
      then show ?thesis using cell[OF ij] by (auto simp: diff_cell_def)
    next
      case True
      then have e: "d ! i ! j = lli_format (ll_sub ?a ?b)"
        using cell[OF ij] by (auto simp: diff_cell_def)
      have w: "d ! i ! j = lli_format ((?a - ?b + 2 ^ 63) mod 2 ^ 64 - 2 ^ 63)"
        using e by (simp only: ll_sub_wrap)
      have x: "d ! i ! j = lli_format (?a - ?b) \<and> atoll (d ! i ! j) = ?a - ?b"
        if "- (2 ^ 63) \<le> ?a - ?b \<and> ?a - ?b < 2 ^ 63"
      proof -
        from that have f: "- (2 ^ 63) \<le> ?a - ?b" "?a - ?b < 2 ^ 63" by blast+
        show ?thesis using ll_sub_fits[OF f] e by simp
      qed
      show ?thesis unfolding if_P[OF True] using w x by blast
    qed
  qed
  have 3: "\<forall>s. \<not> has_number s \<longrightarrow> atoll s = 0" by (simp add: atoll_no_number)
  have 4: "\<forall>s. - (2 ^ 63) \<le> atoll s \<and> atoll s < 2 ^ 63" using atoll_bounds by blast
  have 5: "(\<forall>j<n_cols. int j < mn \<or> mx < int j) \<longrightarrow> d = c_arr"
  proof
    assume e: "\<forall>j<n_cols. int j < mn \<or> mx < int j"
    show "d = c_arr"
    proof (rule shaped_eqI[OF 1 assms(2)])
      fix i j assume "i < n_rows" "j < n_cols"
      then show "d ! i ! j = c_arr ! i ! j"
        using e cell by (auto simp: diff_cell_def)
    qed
  qed
  show ?thesis using 1 2 3 4 5 by blast
qed

theorem diff_arrays_spec_witness:
  "shaped [[''db'', ''10'', ''x'', ''5'']] 1 4 \<and> shaped [[''db'', ''25'', ''7'', ''2'']] 1 4 \<and>
   diff_arrays example_h [[''db'', ''10'', ''x'', ''5'']] [[''db'', ''25'', ''7'', ''2'']]
       pg_stat_user_tables 1 4 = [[''db'', ''15'', ''7'', ''-3'']] \<and>
   diff_arrays example_h [[''db'', ''10'', ''x'', ''5'']] [[''db'', ''25'', ''7'', ''2'']]
       pg_stat_user_functions 1 4 = [[''db'', ''25'', ''7'', ''-3'']] \<and>
   diff_arrays example_h [[''db'', ''10'', ''x'', ''5'']] [[''db'', ''25'', ''7'', ''2'']]
       pg_stat_activity_long 1 4 = [[''db'', ''25'', ''7'', ''2'']] \<and>
   atoll ''x'' = 0 \<and>
   atoll (diff_arrays example_h [[''db'', ''10'', ''x'', ''5'']] [[''db'', ''25'', ''7'', ''2'']]
       pg_stat_user_tables 1 4 ! 0 ! 3) = 2 - 5"
proof -
  let ?p = "[[''db'', ''10'', ''x'', ''5'']]" and ?c = "[[''db'', ''25'', ''7'', ''2'']]"
  have p: "shaped ?p 1 4" by (simp add: shaped_def)
  have c: "shaped ?c 1 4" by (simp add: shaped_def)
  have n: "\<not> has_number ''x''" by (simp add: has_number_def isspace_def isdigit_def)
  have mn1: "1 = (if pg_stat_user_tables = pg_stat_user_functions
                  then PG_STAT_USER_FUNCTIONS_DIFF_COL example_h
                  else ORDER_MIN example_h pg_stat_user_tables)"
    and mx1: "3 = (if pg_stat_user_tables = pg_stat_user_functions
                  then PG_STAT_USER_FUNCTIONS_DIFF_COL example_h
                  else ORDER_MAX example_h pg_stat_user_tables)"
    and mn2: "3 = (if pg_stat_user_functions = pg_stat_user_functions
                  then PG_STAT_USER_FUNCTIONS_DIFF_COL example_h
                  else ORDER_MIN example_h pg_stat_user_functions)"
    and mx2: "3 = (if pg_stat_user_functions = pg_stat_user_functions
                  then PG_STAT_USER_FUNCTIONS_DIFF_COL example_h
                  else ORDER_MAX example_h pg_stat_user_functions)"
    and mn3: "- 1 = (if pg_stat_activity_long = pg_stat_user_functions
                  then PG_STAT_USER_FUNCTIONS_DIFF_COL example_h
                  else ORDER_MIN example_h pg_stat_activity_long)"
    and mx3: "- 1 = (if pg_stat_activity_long = pg_stat_user_functions
                  then PG_STAT_USER_FUNCTIONS_DIFF_COL example_h
                  else ORDER_MAX example_h pg_stat_activity_long)"
    by (simp_all add: example_h_def)
  note t1 = diff_arrays_spec[OF p c mn1 mx1 refl]
  note t2 = diff_arrays_spec[OF p c mn2 mx2 refl]
  note t3 = diff_arrays_spec[OF p c mn3 mx3 refl]
  note q1 = t1[THEN conjunct2, THEN conjunct1, rule_format, of 0]
  note q2 = t2[THEN conjunct2, THEN conjunct1, rule_format, of 0]
  let ?d1 = "diff_arrays example_h ?p ?c pg_stat_user_tables 1 4"
  let ?d2 = "diff_arrays example_h ?p ?c pg_stat_user_functions 1 4"
  let ?d3 = "diff_arrays example_h ?p ?c pg_stat_activity_long 1 4"
  have s1: "shaped ?d1 1 4" using t1 by (rule conjunct1)
  have c1: "?d1 ! 0 ! 0 = ''db''" "?d1 ! 0 ! 1 = ''15''" "?d1 ! 0 ! 2 = ''7''"
    "?d1 ! 0 ! 3 = ''-3''"
    using q1[of 0] q1[of 1] q1[of 2] q1[of 3] by (simp_all add: example_cells)
  have e1: "?d1 = [[''db'', ''15'', ''7'', ''-3'']]"
  proof (rule shaped_eqI[OF s1])
    show "shaped [[''db'', ''15'', ''7'', ''-3'']] 1 4" by (simp add: shaped_def)
    fix i j :: nat assume "i < 1" "j < 4"
    then show "?d1 ! i ! j = [[''db'', ''15'', ''7'', ''-3'']] ! i ! j"
      using c1 less_4_cases[of j] by auto
  qed
  have s2: "shaped ?d2 1 4" using t2 by (rule conjunct1)
  have c2: "?d2 ! 0 ! 0 = ''db''" "?d2 ! 0 ! 1 = ''25''" "?d2 ! 0 ! 2 = ''7''"
    "?d2 ! 0 ! 3 = ''-3''"
    using q2[of 0] q2[of 1] q2[of 2] q2[of 3] by (simp_all add: example_cells)
  have e2: "?d2 = [[''db'', ''25'', ''7'', ''-3'']]"
  proof (rule shaped_eqI[OF s2])
    show "shaped [[''db'', ''25'', ''7'', ''-3'']] 1 4" by (simp add: shaped_def)
    fix i j :: nat assume "i < 1" "j < 4"
    then show "?d2 ! i ! j = [[''db'', ''25'', ''7'', ''-3'']] ! i ! j"
      using c2 less_4_cases[of j] by auto
  qed
  have "\<forall>j<4. int j < - 1 \<or> - 1 < int j" by simp
  then have e3: "?d3 = ?c" using t3 by blast
  have x: "atoll ''x'' = 0" using t1 n by blast
  have r: "atoll (?d1 ! 0 ! 3) = 2 - 5"
    using q1[of 3] by (simp add: example_cells)
  show ?thesis using p c e1 e2 e3 x r by blast
qed

subsection \<open>\<^verbatim>\<open>sort_array\<close>\<close>

lemma shaped_row: "shaped a n c \<Longrightarrow> i < n \<Longrightarrow> length (a ! i) = c"
  by (auto simp: shaped_def list_all_length)

lemma swap_rows_shaped:
  assumes "shaped a n c" "i < n" "j < n"
  shows "swap_rows a i j c = a[i := a ! j, j := a ! i]"
proof -
  have "map (\<lambda>x. a ! j ! x) [0..<c] = a ! j" "map (\<lambda>x. a ! i ! x) [0..<c] = a ! i"
    using shaped_row[OF assms(1,2)] shaped_row[OF assms(1,3)] map_nth[of "a ! j"] map_nth[of "a ! i"]
    by auto
  moreover have "drop c (a ! i) = []" "drop c (a ! j) = []"
    using shaped_row[OF assms(1,2)] shaped_row[OF assms(1,3)] by auto
  ultimately show ?thesis by (simp add: swap_rows_def)
qed

lemma sort_step_shaped:
  assumes "shaped a n c" "i < n" "j < n"
  shows "sort_step desc k c i j a =
           (if row_key desc k (a ! i) < row_key desc k (a ! j) then a[i := a ! j, j := a ! i] else a)"
  using swap_rows_shaped[OF assms]
  by (auto simp: sort_step_def row_key_def Let_def)

lemma shaped_swap:
  assumes "shaped a n c" "i < n" "j < n"
  shows "shaped (a[i := a ! j, j := a ! i]) n c"
  using assms unfolding shaped_def list_all_length
  by (auto simp: nth_list_update)

lemma mset_drop_swap:
  assumes "i < j" "j < length b"
  shows "mset (drop i (b[i := b ! j, j := b ! i])) = mset (drop i b)"
proof -
  let ?d = "drop i b"
  have l: "0 < length ?d" "j - i < length ?d" using assms by auto
  have "drop i (b[i := b ! j, j := b ! i]) = ?d[0 := ?d ! (j - i), j - i := ?d ! 0]"
    using assms by (simp add: drop_update_swap)
  then show ?thesis using mset_swap[OF l(2) l(1)] by simp
qed

lemma sort_inner_inv:
  assumes "shaped a n c" "i < n"
  shows "m \<le> n \<Longrightarrow>
         shaped (sort_inner desc k c i m a) n c \<and>
         take i (sort_inner desc k c i m a) = take i a \<and>
         mset (drop i (sort_inner desc k c i m a)) = mset (drop i a) \<and>
         (\<forall>q. i < q \<and> q < m \<longrightarrow>
            row_key desc k (sort_inner desc k c i m a ! q) \<le> row_key desc k (sort_inner desc k c i m a ! i))"
proof (induction m)
  case 0
  then show ?case using assms by (simp add: sort_inner_def)
next
  case (Suc m)
  show ?case
  proof (cases "Suc i \<le> m")
    case False
    then have "sort_inner desc k c i (Suc m) a = a" by (simp add: sort_inner_def)
    then show ?thesis using assms False by auto
  next
    case True
    let ?b = "sort_inner desc k c i m a"
    have ih: "shaped ?b n c" "take i ?b = take i a" "mset (drop i ?b) = mset (drop i a)"
      "\<forall>q. i < q \<and> q < m \<longrightarrow> row_key desc k (?b ! q) \<le> row_key desc k (?b ! i)"
      using Suc by auto
    have mn: "m < n" "i < m" using Suc.prems True by auto
    have lb: "length ?b = n" using ih(1) by (simp add: shaped_def)
    have step: "sort_inner desc k c i (Suc m) a = sort_step desc k c i m ?b"
      using True by (simp add: sort_inner_def)
    show ?thesis
    proof (cases "row_key desc k (?b ! i) < row_key desc k (?b ! m)")
      case False
      then have e: "sort_inner desc k c i (Suc m) a = ?b"
        using step sort_step_shaped[OF ih(1) assms(2) mn(1)] by simp
      have "\<forall>q. i < q \<and> q < Suc m \<longrightarrow> row_key desc k (?b ! q) \<le> row_key desc k (?b ! i)"
        using ih(4) False by (auto simp: less_Suc_eq)
      then show ?thesis using e ih by simp
    next
      case sw: True
      let ?b' = "?b[i := ?b ! m, m := ?b ! i]"
      have e: "sort_inner desc k c i (Suc m) a = ?b'"
        using step sort_step_shaped[OF ih(1) assms(2) mn(1)] sw by simp
      have 1: "shaped ?b' n c" using shaped_swap[OF ih(1) assms(2) mn(1)] .
      have 2: "take i ?b' = take i a" using ih(2) mn by simp
      have 3: "mset (drop i ?b') = mset (drop i a)"
        using mset_drop_swap[of i m ?b] mn lb ih(3) by simp
      have 4: "\<forall>q. i < q \<and> q < Suc m \<longrightarrow> row_key desc k (?b' ! q) \<le> row_key desc k (?b' ! i)"
      proof (intro allI impI)
        fix q assume q: "i < q \<and> q < Suc m"
        have bi: "?b' ! i = ?b ! m" using mn lb assms(2) by (simp add: nth_list_update)
        show "row_key desc k (?b' ! q) \<le> row_key desc k (?b' ! i)"
        proof (cases "q = m")
          case True
          then have "?b' ! q = ?b ! i" using mn lb by simp
          then show ?thesis using bi sw by simp
        next
          case False
          then have "?b' ! q = ?b ! q" "q < m" using q mn lb by auto
          then show ?thesis using bi sw ih(4) q by force
        qed
      qed
      show ?thesis using e 1 2 3 4 by simp
    qed
  qed
qed

lemma mset_take_drop: "take i b = take i a \<Longrightarrow> mset (drop i b) = mset (drop i a) \<Longrightarrow> mset b = mset a"
  by (metis append_take_drop_id mset_append)

lemma nth_drop_mem:
  assumes "mset (drop i b) = mset (drop i a)" "i \<le> q" "q < length b"
  shows "\<exists>q'. i \<le> q' \<and> q' < length a \<and> b ! q = a ! q'"
proof -
  have "drop i b ! (q - i) = b ! q" "q - i < length (drop i b)" using assms(2,3) by auto
  then have "b ! q \<in> set (drop i b)" by (metis nth_mem)
  then have "b ! q \<in> set (drop i a)" using assms(1) by (metis set_mset_mset)
  then obtain r where r: "r < length (drop i a)" "drop i a ! r = b ! q"
    by (auto simp: in_set_conv_nth)
  then have "i + r < length a" "a ! (i + r) = b ! q" by auto
  then show ?thesis by (intro exI[of _ "i + r"]) auto
qed

lemma sort_outer_inv:
  assumes "shaped a n c"
  shows "m \<le> n \<Longrightarrow>
         shaped (sort_outer desc k c n m a) n c \<and>
         mset (sort_outer desc k c n m a) = mset a \<and>
         (\<forall>p q. p < m \<and> p < q \<and> q < n \<longrightarrow>
            row_key desc k (sort_outer desc k c n m a ! q) \<le> row_key desc k (sort_outer desc k c n m a ! p))"
proof (induction m)
  case 0
  then show ?case using assms by (simp add: sort_outer_def)
next
  case (Suc m)
  let ?a = "sort_outer desc k c n m a"
  let ?b = "sort_inner desc k c m n ?a"
  have ih: "shaped ?a n c" "mset ?a = mset a"
     "\<forall>p q. p < m \<and> p < q \<and> q < n \<longrightarrow> row_key desc k (?a ! q) \<le> row_key desc k (?a ! p)"
    using Suc by auto
  have mn: "m < n" using Suc.prems by simp
  have e: "sort_outer desc k c n (Suc m) a = ?b" by (simp add: sort_outer_def)
  note inner = sort_inner_inv[OF ih(1) mn, of n desc k, simplified]
  have la: "length ?a = n" "length ?b = n" using ih(1) inner by (auto simp: shaped_def)
  have 2: "mset ?b = mset a" using mset_take_drop[of m ?b ?a] inner ih(2) by simp
  have 3: "\<forall>p q. p < Suc m \<and> p < q \<and> q < n \<longrightarrow> row_key desc k (?b ! q) \<le> row_key desc k (?b ! p)"
  proof (intro allI impI)
    fix p q assume pq: "p < Suc m \<and> p < q \<and> q < n"
    show "row_key desc k (?b ! q) \<le> row_key desc k (?b ! p)"
    proof (cases "p = m")
      case True
      then show ?thesis using inner pq by simp
    next
      case False
      then have pm: "p < m" using pq by simp
      have bp: "?b ! p = ?a ! p"
        using inner pm by (metis nth_take)
      show ?thesis
      proof (cases "q < m")
        case True
        then have "?b ! q = ?a ! q" using inner by (metis nth_take)
        then show ?thesis using bp ih(3) pm pq by simp
      next
        case False
        then obtain q' where "m \<le> q'" "q' < n" "?b ! q = ?a ! q'"
          using nth_drop_mem[of m ?b ?a q] inner la pq by auto
        then show ?thesis using bp ih(3) pm by simp
      qed
    qed
  qed
  show ?case using e inner 2 3 by simp
qed

lemma sort_outer_sorted:
  assumes "shaped a n c"
  shows "shaped (sort_outer desc k c n n a) n c \<and> mset (sort_outer desc k c n n a) = mset a \<and>
         ordered_by desc k (sort_outer desc k c n n a)"
proof -
  let ?b = "sort_outer desc k c n n a"
  note inv = sort_outer_inv[OF assms, of n desc k, simplified]
  have l: "length ?b = n" using inv by (simp add: shaped_def)
  have "ordered_by desc k ?b"
    unfolding ordered_by_def sorted_wrt_iff_nth_less
  proof (intro allI impI)
    fix i j assume "i < j" "j < length ?b"
    then have "row_key desc k (?b ! j) \<le> row_key desc k (?b ! i)" using inv l by simp
    then show "if desc then atoll (?b ! j ! k) \<le> atoll (?b ! i ! k) else atoll (?b ! i ! k) \<le> atoll (?b ! j ! k)"
      by (simp add: row_key_def split: if_splits)
  qed
  then show ?thesis using inv by simp
qed

lemma sort_state_view_screen: "sort_state (view_screen h c) = Some (ORDER_MIN h c, True)"
  by (cases c) (simp_all add: sort_state_def view_screen_def init_screen_def all_contexts_def)

text \<open>
  C6, as amended. Let the array have \<open>n\<close> rows of \<open>c\<close> cells and let the current view
  have order key \<open>key\<close> and direction \<open>desc\<close>. In the view of the user functions, and
  when the key is \<^verbatim>\<open>INVALID_ORDER_KEY\<close>, \<^verbatim>\<open>sort_array\<close> leaves the array as it is. In
  every other view, with a key that is a column, it returns the same rows, each one
  whole, in another order (the multiset of the rows is kept), and that order is by
  what \<^verbatim>\<open>atoll\<close> reads in the key column: larger first when \<open>desc\<close>, smaller first
  otherwise.
\<close>

theorem sort_array_spec:
  assumes "shaped a n c" and "sort_state scr = Some (key, desc)"
  shows "(current_context scr = pg_stat_user_functions \<or> key = INVALID_ORDER_KEY h \<longrightarrow>
            sort_array h a n c scr = Some a) \<and>
         (current_context scr \<noteq> pg_stat_user_functions \<and> key \<noteq> INVALID_ORDER_KEY h \<and>
          0 \<le> key \<and> key < int c \<longrightarrow>
            (\<exists>b. sort_array h a n c scr = Some b \<and> shaped b n c \<and> mset b = mset a \<and>
                 ordered_by desc (nat key) b))"
  using assms sort_outer_sorted[OF assms(1), of desc "nat key"]
  by (auto simp: sort_array_def)

text \<open>
  C6 as stated fails in the view of the user functions: with the order key 2, which is
  not \<^verbatim>\<open>INVALID_ORDER_KEY\<close>, and the direction descending, \<^verbatim>\<open>sort_array\<close> leaves the
  row with 1 before the row with 2.
\<close>

theorem sort_array_functions_counterexample:
  "sort_state (view_screen example_h pg_stat_user_functions) = Some (2, True) \<and>
   2 \<noteq> INVALID_ORDER_KEY example_h \<and>
   shaped functions_rows 2 3 \<and>
   sort_array example_h functions_rows 2 3 (view_screen example_h pg_stat_user_functions)
     = Some functions_rows \<and>
   \<not> ordered_by True 2 functions_rows"
proof -
  have k: "sort_state (view_screen example_h pg_stat_user_functions) = Some (2, True)"
    by (simp add: sort_state_view_screen example_h_def)
  have i: "2 \<noteq> INVALID_ORDER_KEY example_h" by (simp add: example_h_def)
  have s: "shaped functions_rows 2 3" by (simp add: shaped_def functions_rows_def)
  have c: "current_context (view_screen example_h pg_stat_user_functions) = pg_stat_user_functions"
    by (simp add: view_screen_def)
  have r: "sort_array example_h functions_rows 2 3 (view_screen example_h pg_stat_user_functions)
     = Some functions_rows"
    by (simp add: sort_array_def c)
  have o: "\<not> ordered_by True 2 functions_rows"
    by (simp add: functions_rows_def ordered_by_def atoll_def isspace_def isdigit_def
      digit_val_def LLONG_MAX_def)
  show ?thesis using k i s r o by simp
qed

lemma sort_array_tables_rows:
  "sort_array example_h tables_rows 3 2 (view_screen example_h pg_stat_user_tables)
        = Some [[''t2'', ''9''], [''t3'', ''7''], [''t1'', ''5'']]"
proof -
  have k: "sort_state (view_screen example_h pg_stat_user_tables) = Some (1, True)"
    by (simp add: sort_state_view_screen example_h_def)
  have c: "current_context (view_screen example_h pg_stat_user_tables) = pg_stat_user_tables"
    by (simp add: view_screen_def)
  have i: "INVALID_ORDER_KEY example_h = - 1" by (simp add: example_h_def)
  have "sort_outer True 1 2 3 3 tables_rows = [[''t2'', ''9''], [''t3'', ''7''], [''t1'', ''5'']]"
    by (simp add: tables_rows_def sort_outer_def sort_inner_def sort_step_def swap_rows_def
      atoll_def isspace_def isdigit_def digit_val_def LLONG_MAX_def upt_rec)
  then show ?thesis by (simp add: sort_array_def k c i)
qed

theorem sort_array_spec_witness:
  "shaped tables_rows 3 2 \<and>
   sort_state (view_screen example_h pg_stat_user_tables) = Some (1, True) \<and>
   current_context (view_screen example_h pg_stat_user_tables) \<noteq> pg_stat_user_functions \<and>
   1 \<noteq> INVALID_ORDER_KEY example_h \<and>
   (\<exists>b. sort_array example_h tables_rows 3 2 (view_screen example_h pg_stat_user_tables) = Some b \<and>
        shaped b 3 2 \<and> mset b = mset tables_rows \<and> ordered_by True (nat 1) b) \<and>
   sort_array example_h tables_rows 3 2 (view_screen example_h pg_stat_activity_long)
     = Some tables_rows"
proof -
  have s: "shaped tables_rows 3 2" by (simp add: shaped_def tables_rows_def)
  have k1: "sort_state (view_screen example_h pg_stat_user_tables) = Some (1, True)"
    by (simp add: sort_state_view_screen example_h_def)
  have k2: "sort_state (view_screen example_h pg_stat_activity_long) = Some (- 1, True)"
    by (simp add: sort_state_view_screen example_h_def)
  have c: "current_context (view_screen example_h pg_stat_user_tables) \<noteq> pg_stat_user_functions"
    by (simp add: view_screen_def)
  have i: "1 \<noteq> INVALID_ORDER_KEY example_h" "- 1 = INVALID_ORDER_KEY example_h"
    by (simp_all add: example_h_def)
  show ?thesis
    using sort_array_spec[OF s k1, of example_h] sort_array_spec[OF s k2, of example_h] s k1 c i
    by simp
qed

subsection \<open>\<^verbatim>\<open>change_sort_order\<close>\<close>

lemma sort_state_fold_map:
  "fold (\<lambda>cl acc. if c = context_of cl then Some (order_key cl, order_desc cl) else acc)
     (map (\<lambda>cl. if c = context_of cl then cl\<lparr>order_key := f (order_key cl)\<rparr> else cl) cls)
     (map_option (\<lambda>(k, d). (f k, d)) acc) =
   map_option (\<lambda>(k, d). (f k, d))
     (fold (\<lambda>cl acc. if c = context_of cl then Some (order_key cl, order_desc cl) else acc) cls acc)"
proof (induction cls arbitrary: acc)
  case Nil
  show ?case by simp
next
  case (Cons cl cls)
  show ?case
  proof (cases "c = context_of cl")
    case True
    then show ?thesis
      using Cons[of "Some (order_key cl, order_desc cl)"] by simp
  next
    case False
    then show ?thesis using Cons[of acc] by simp
  qed
qed

lemma press_context: "current_context (press h inc scr) = current_context scr"
  by (simp add: press_def change_sort_order_def split: prod.splits)

lemma sort_state_press:
  "sort_state (press h inc scr) =
     map_option (\<lambda>(k, d). (step_key inc (fst (sort_range h (current_context scr)))
                                (snd (sort_range h (current_context scr))) k, d))
       (sort_state scr)"
proof -
  obtain mn mx where r: "sort_range h (current_context scr) = (mn, mx)"
    by (cases "sort_range h (current_context scr)")
  have "context_list (press h inc scr) =
          map (\<lambda>cl. if current_context scr = context_of cl
                    then cl\<lparr>order_key := step_key inc mn mx (order_key cl)\<rparr> else cl)
            (context_list scr)"
    by (simp add: press_def change_sort_order_def r)
  then show ?thesis
    using sort_state_fold_map[of "current_context scr" "step_key inc mn mx" "context_list scr" None]
    by (simp add: sort_state_def press_context r)
qed

lemma shown_key_press:
  "shown_key (press h inc scr) =
     map_option (step_key inc (fst (sort_range h (current_context scr)))
                   (snd (sort_range h (current_context scr)))) (shown_key scr)"
  by (cases "sort_state scr") (auto simp: shown_key_def sort_state_press)

lemma press_funpow_context: "current_context ((press h inc ^^ k) scr) = current_context scr"
  by (induction k) (simp_all add: press_context)

lemma shown_key_funpow:
  "shown_key ((press h inc ^^ k) scr) =
     map_option (step_key inc (fst (sort_range h (current_context scr)))
                   (snd (sort_range h (current_context scr))) ^^ k) (shown_key scr)"
proof (induction k)
  case 0
  show ?case by (simp add: option.map_ident)
next
  case (Suc k)
  show ?case
    by (cases "shown_key scr") (simp_all add: shown_key_press Suc press_funpow_context)
qed

lemma step_key_right:
  assumes "mn \<le> x" "x \<le> mx"
  shows "(step_key True mn mx ^^ k) x = mn + (x - mn + int k) mod (mx - mn + 1)"
proof (induction k)
  case 0
  show ?case using assms by simp
next
  case (Suc k)
  let ?N = "mx - mn + 1"
  let ?r = "(x - mn + int k) mod ?N"
  have N: "0 < ?N" using assms by simp
  have r: "0 \<le> ?r" "?r < ?N"
    using pos_mod_sign[OF N] pos_mod_bound[OF N] by blast+
  have "(step_key True mn mx ^^ Suc k) x = step_key True mn mx (mn + ?r)"
    using Suc by simp
  also have "\<dots> = mn + (?r + 1) mod ?N"
  proof (cases "?r + 1 = ?N")
    case True
    then show ?thesis by (simp add: step_key_def)
  next
    case False
    then have "?r + 1 < ?N" using r by simp
    then show ?thesis using r by (simp add: step_key_def)
  qed
  also have "(?r + 1) mod ?N = ((x - mn + int k) + 1) mod ?N"
    by (simp only: mod_add_left_eq)
  also have "(x - mn + int k) + 1 = x - mn + int (Suc k)" by simp
  finally show ?case .
qed

lemma step_key_left:
  assumes "mn \<le> x" "x \<le> mx"
  shows "(step_key False mn mx ^^ k) x = mn + (x - mn - int k) mod (mx - mn + 1)"
proof (induction k)
  case 0
  show ?case using assms by simp
next
  case (Suc k)
  let ?N = "mx - mn + 1"
  let ?r = "(x - mn - int k) mod ?N"
  have N: "0 < ?N" using assms by simp
  have r: "0 \<le> ?r" "?r < ?N"
    using pos_mod_sign[OF N] pos_mod_bound[OF N] by blast+
  have "(step_key False mn mx ^^ Suc k) x = step_key False mn mx (mn + ?r)"
    using Suc by simp
  also have "\<dots> = mn + (?r - 1) mod ?N"
  proof (cases "?r = 0")
    case True
    have "(- 1) mod ?N = ?N - 1" using N by (simp add: zmod_minus1)
    then show ?thesis using True by (simp add: step_key_def)
  next
    case False
    then have "0 \<le> ?r - 1" "?r - 1 < ?N" using r by simp_all
    then show ?thesis using r False by (simp add: step_key_def)
  qed
  also have "(?r - 1) mod ?N = ((x - mn - int k) - 1) mod ?N"
    by (simp only: mod_diff_left_eq)
  also have "(x - mn - int k) - 1 = x - mn - int (Suc k)" by simp
  finally show ?case .
qed


lemma mod_shift_neq:
  fixes N a :: int
  assumes "0 \<le> a" "a < N" "0 < k" "k < N"
  shows "(a + k) mod N \<noteq> a" "(a - k) mod N \<noteq> a"
proof -
  show "(a + k) mod N \<noteq> a"
  proof (cases "a + k < N")
    case True
    then have "(a + k) mod N = a + k" using assms by (intro mod_pos_pos_trivial) linarith+
    then show ?thesis using assms by linarith
  next
    case False
    have "(a + k) mod N = a + k - N"
      by (rule int_mod_pos_eq[where q = 1]) (use False assms in linarith)+
    then show ?thesis using assms by linarith
  qed
  show "(a - k) mod N \<noteq> a"
  proof (cases "0 \<le> a - k")
    case True
    then have "(a - k) mod N = a - k" using assms by (intro mod_pos_pos_trivial) linarith+
    then show ?thesis using assms by linarith
  next
    case False
    have "(a - k) mod N = a - k + N"
      by (rule int_mod_pos_eq[where q = "- 1"]) (use False assms in linarith)+
    then show ?thesis using assms by linarith
  qed
qed

lemma mod_reach:
  fixes N a b :: int
  assumes "0 \<le> a" "a < N" "0 \<le> b" "b < N"
  shows "(a + (b - a) mod N) mod N = b" "(a - (a - b) mod N) mod N = b"
proof -
  have "(a + (b - a) mod N) mod N = (a + (b - a)) mod N" by (simp only: mod_add_right_eq)
  also have "a + (b - a) = b" by linarith
  also have "b mod N = b" using assms by (intro mod_pos_pos_trivial)
  finally show "(a + (b - a) mod N) mod N = b" .
  have "(a - (a - b) mod N) mod N = (a - (a - b)) mod N" by (simp only: mod_diff_right_eq)
  also have "a - (a - b) = b" by linarith
  also have "b mod N = b" using assms by (intro mod_pos_pos_trivial)
  finally show "(a - (a - b) mod N) mod N = b" .
qed

lemma mod_full_turn:
  fixes N a :: int
  assumes "0 \<le> a" "a < N"
  shows "(a + N) mod N = a" "(a - N) mod N = a"
proof -
  have "(a + N) mod N = a mod N" by (rule mod_add_self2)
  then show "(a + N) mod N = a" using assms by (simp add: mod_pos_pos_trivial)
  show "(a - N) mod N = a"
    by (rule int_mod_pos_eq[where q = "- 1"]) (use assms in linarith)+
qed

lemma initial_key_in_range:
  assumes "ORDER_MIN h c \<le> ORDER_MAX h c" "sort_range h c = (mn, mx)"
  shows "mn \<le> ORDER_MIN h c \<and> ORDER_MIN h c \<le> mx"
  using assms by (cases c) (auto simp: sort_range_def)

lemma key_after_closed:
  assumes "ORDER_MIN h c \<le> ORDER_MAX h c" "sort_range h c = (mn, mx)"
  shows "key_after h True k c = Some (mn + (ORDER_MIN h c - mn + int k) mod (mx - mn + 1))"
    and "key_after h False k c = Some (mn + (ORDER_MIN h c - mn - int k) mod (mx - mn + 1))"
proof -
  have c: "current_context (view_screen h c) = c" by (simp add: view_screen_def)
  have s: "shown_key (view_screen h c) = Some (ORDER_MIN h c)"
    by (simp add: shown_key_def sort_state_view_screen)
  note r = initial_key_in_range[OF assms]
  show "key_after h True k c = Some (mn + (ORDER_MIN h c - mn + int k) mod (mx - mn + 1))"
    using step_key_right[of mn "ORDER_MIN h c" mx k] r
    by (simp add: key_after_def shown_key_funpow c s assms(2))
  show "key_after h False k c = Some (mn + (ORDER_MIN h c - mn - int k) mod (mx - mn + 1))"
    using step_key_left[of mn "ORDER_MIN h c" mx k] r
    by (simp add: key_after_def shown_key_funpow c s assms(2))
qed

text \<open>
  C2. Let \<open>mn .. mx\<close> be the columns that \<^verbatim>\<open>change_sort_order\<close> allows in view \<open>c\<close>
  (for the table sizes they start three columns before \<^verbatim>\<open>PG_TABLES_SIZE_ORDER_MIN\<close>),
  and let the header give the view at least one column (\<open>ORDER_MIN \<le> ORDER_MAX\<close>).
  Pressing the right arrow (\<open>inc\<close>) or the left arrow (\<open>\<not> inc\<close>) again and again from the
  key that \<^verbatim>\<open>init_screens\<close> sets, the order key stays within \<open>mn .. mx\<close> after every
  press, every column of \<open>mn .. mx\<close> is the key after fewer than \<open>mx - mn + 1\<close> presses,
  and the key is the first one again after \<open>mx - mn + 1\<close> presses and not before.
\<close>

theorem sort_wraparound:
  assumes "ORDER_MIN h c \<le> ORDER_MAX h c" and "sort_range h c = (mn, mx)"
  shows "key_after h inc 0 c = Some (ORDER_MIN h c) \<and>
    (\<forall>k. \<exists>x. key_after h inc k c = Some x \<and> mn \<le> x \<and> x \<le> mx) \<and>
    (\<forall>col. mn \<le> col \<and> col \<le> mx \<longrightarrow> (\<exists>k < nat (mx - mn + 1). key_after h inc k c = Some col)) \<and>
    key_after h inc (nat (mx - mn + 1)) c = Some (ORDER_MIN h c) \<and>
    (\<forall>k. 0 < k \<and> k < nat (mx - mn + 1) \<longrightarrow> key_after h inc k c \<noteq> Some (ORDER_MIN h c))"
proof -
  let ?N = "mx - mn + 1"
  let ?a = "ORDER_MIN h c - mn"
  note r = initial_key_in_range[OF assms]
  have N: "0 < ?N" and a: "0 \<le> ?a" "?a < ?N" using r by simp_all
  note cl = key_after_closed[OF assms]
  have 0: "key_after h inc 0 c = Some (ORDER_MIN h c)"
    using cl[of 0] a by (cases inc) simp_all
  have 1: "\<forall>k. \<exists>x. key_after h inc k c = Some x \<and> mn \<le> x \<and> x \<le> mx"
  proof
    fix k
    have "0 \<le> (?a + int k) mod ?N" "(?a + int k) mod ?N < ?N"
         "0 \<le> (?a - int k) mod ?N" "(?a - int k) mod ?N < ?N"
      using pos_mod_sign[OF N] pos_mod_bound[OF N] by blast+
    then show "\<exists>x. key_after h inc k c = Some x \<and> mn \<le> x \<and> x \<le> mx"
      using cl[of k] by (cases inc) simp_all
  qed
  have 2: "\<forall>col. mn \<le> col \<and> col \<le> mx \<longrightarrow> (\<exists>k < nat ?N. key_after h inc k c = Some col)"
  proof (intro allI impI)
    fix col assume col: "mn \<le> col \<and> col \<le> mx"
    let ?b = "col - mn"
    have b: "0 \<le> ?b" "?b < ?N" using col by simp_all
    show "\<exists>k < nat ?N. key_after h inc k c = Some col"
    proof (cases inc)
      case True
      let ?k = "nat ((?b - ?a) mod ?N)"
      have k: "0 \<le> (?b - ?a) mod ?N" "(?b - ?a) mod ?N < ?N"
        using pos_mod_sign[OF N] pos_mod_bound[OF N] by blast+
      have "key_after h inc ?k c = Some (mn + (?a + (?b - ?a) mod ?N) mod ?N)"
        using cl(1)[of ?k] k True by simp
      then have "key_after h inc ?k c = Some col"
        using mod_reach(1)[OF a b] by simp
      moreover have "?k < nat ?N" using k by simp
      ultimately show ?thesis by blast
    next
      case False
      let ?k = "nat ((?a - ?b) mod ?N)"
      have k: "0 \<le> (?a - ?b) mod ?N" "(?a - ?b) mod ?N < ?N"
        using pos_mod_sign[OF N] pos_mod_bound[OF N] by blast+
      have "key_after h inc ?k c = Some (mn + (?a - (?a - ?b) mod ?N) mod ?N)"
        using cl(2)[of ?k] k False by simp
      then have "key_after h inc ?k c = Some col"
        using mod_reach(2)[OF a b] by simp
      moreover have "?k < nat ?N" using k by simp
      ultimately show ?thesis by blast
    qed
  qed
  have 3: "key_after h inc (nat ?N) c = Some (ORDER_MIN h c)"
  proof -
    have n: "int (nat ?N) = ?N" using N by simp
    have "key_after h True (nat ?N) c = Some (mn + (?a + ?N) mod ?N)"
      "key_after h False (nat ?N) c = Some (mn + (?a - ?N) mod ?N)"
      using cl[of "nat ?N"] by (simp_all only: n)
    then show ?thesis using mod_full_turn[OF a] by (cases inc) simp_all
  qed
  have 4: "\<forall>k. 0 < k \<and> k < nat ?N \<longrightarrow> key_after h inc k c \<noteq> Some (ORDER_MIN h c)"
  proof (intro allI impI)
    fix k assume k: "0 < k \<and> k < nat ?N"
    then have "0 < int k" "int k < ?N" using N by linarith+
    from mod_shift_neq[OF a this] show "key_after h inc k c \<noteq> Some (ORDER_MIN h c)"
      using cl[of k] by (cases inc) auto
  qed
  show ?thesis using 0 1 2 3 4 by blast
qed

theorem sort_wraparound_witness:
  "ORDER_MIN example_h pg_stat_database \<le> ORDER_MAX example_h pg_stat_database \<and>
   sort_range example_h pg_stat_database = (1, 5) \<and>
   key_after example_h True 0 pg_stat_database = Some 1 \<and>
   key_after example_h True (nat (5 - 1 + 1)) pg_stat_database = Some 1 \<and>
   key_after example_h False (nat (5 - 1 + 1)) pg_stat_database = Some 1 \<and>
   ORDER_MIN example_h pg_tables_size \<le> ORDER_MAX example_h pg_tables_size \<and>
   sort_range example_h pg_tables_size = (1, 6) \<and>
   key_after example_h True 0 pg_tables_size = Some 4 \<and>
   key_after example_h True (nat (6 - 1 + 1)) pg_tables_size = Some 4"
proof -
  have d: "ORDER_MIN example_h pg_stat_database \<le> ORDER_MAX example_h pg_stat_database"
    "sort_range example_h pg_stat_database = (1, 5)"
    "ORDER_MIN example_h pg_stat_database = 1"
    by (simp_all add: example_h_def sort_range_def)
  have t: "ORDER_MIN example_h pg_tables_size \<le> ORDER_MAX example_h pg_tables_size"
    "sort_range example_h pg_tables_size = (1, 6)"
    "ORDER_MIN example_h pg_tables_size = 4"
    by (simp_all add: example_h_def sort_range_def)
  show ?thesis
    using sort_wraparound[OF d(1,2), of True] sort_wraparound[OF d(1,2), of False]
      sort_wraparound[OF t(1,2), of True] d t
    by simp
qed

lemma key_after_tables_size_5: "key_after example_h True 3 pg_tables_size = Some 1"
  using key_after_closed(1)[of example_h pg_tables_size 1 6 3]
  by (simp add: example_h_def sort_range_def)

lemma key_press_right:
  "key_press h g s 27 (x # ord CHR ''C'' # rest) =
     Some (s\<lparr>screens := (screens s)[console_index s := press h True (screens s ! console_index s)],
             first_iter := (if current_context (screens s ! console_index s) = pg_stat_user_functions
                            then True else first_iter s)\<rparr>, [], rest)"
  by (simp add: key_press_def ord_def press_def change_sort_order_def Let_def split: prod.splits)

lemma key_press_left:
  "key_press h g s 27 (x # ord CHR ''D'' # rest) =
     Some (s\<lparr>screens := (screens s)[console_index s := press h False (screens s ! console_index s)],
             first_iter := (if current_context (screens s ! console_index s) = pg_stat_user_functions
                            then True else first_iter s)\<rparr>, [], rest)"
  by (simp add: key_press_def ord_def press_def change_sort_order_def Let_def split: prod.splits)

subsection \<open>The main loop\<close>

lemma do_query_ok: "PQresultStatus ans = PG_TUP_OK \<Longrightarrow> do_query ans = (ans, [])"
  by (simp add: do_query_def)

lemma do_query_failed:
  "PQresultStatus ans \<noteq> PG_TUP_OK \<Longrightarrow> do_query ans = (None, [Puts ''We didn't get any data.''])"
  by (simp add: do_query_def)

lemma tick_first:
  "first_iter s \<Longrightarrow>
   tick h s ans = Some (s\<lparr>first_iter := False, p_res := fst (do_query ans)\<rparr>, snd (do_query ans))"
  by (cases "do_query ans") (simp add: tick_def Let_def)

lemma tick_grow:
  "\<not> first_iter s \<Longrightarrow> n_prev_rows s < int (PQntuples (fst (do_query ans))) \<Longrightarrow>
   tick h s ans =
     Some (s\<lparr>p_res := fst (do_query ans),
             n_prev_rows := int (PQntuples (fst (do_query ans)))\<rparr>, snd (do_query ans))"
  by (cases "do_query ans") (simp add: tick_def Let_def)

lemma tick_render:
  assumes "\<not> first_iter s" "int (PQntuples c) \<le> n_prev_rows s" "do_query ans = (c, out)"
    "pgrescpy (p_res s) (PQntuples c) (PQnfields c) = Some p_arr"
    "pgrescpy c (PQntuples c) (PQnfields c) = Some c_arr"
    "sort_array h
       (diff_arrays h p_arr c_arr (current_context (screens s ! console_index s))
          (PQntuples c) (PQnfields c))
       (PQntuples c) (PQnfields c) (screens s ! console_index s) = Some r_arr"
    "print_data c r_arr (PQntuples c) (PQnfields c) (screens s ! console_index s) = Some ev"
  shows "tick h s ans = Some (s\<lparr>p_res := c, n_prev_rows := int (PQntuples c)\<rparr>, out @ [ev])"
  using assms by (simp add: tick_def Let_def)

lemma tick_after:
  assumes "tick h s ans = Some (s', out)"
  shows "p_res s' = fst (do_query ans) \<and> \<not> first_iter s' \<and> screens s' = screens s \<and>
         console_index s' = console_index s \<and> console_no s' = console_no s \<and>
         n_prev_rows s' = (if first_iter s then n_prev_rows s
                           else int (PQntuples (fst (do_query ans))))"
  using assms
  by (auto simp: tick_def Let_def split: prod.splits if_splits option.splits)

lemma pgrescpy_empty: "pgrescpy res 0 m = Some []"
  by (simp add: pgrescpy_def)

lemma sort_array_empty:
  "sort_state scr = Some (key, desc) \<Longrightarrow> sort_array h [] 0 m scr = Some []"
  by (simp add: sort_array_def sort_outer_def)

lemma print_data_null:
  "sort_state scr = Some (key, desc) \<Longrightarrow> print_data None [] 0 0 scr = Some (Print_data [] key [])"
  by (simp add: print_data_def)

text \<open>
  C1, as amended. When the status of the result is not \<^verbatim>\<open>PG_TUP_OK\<close>, \<^verbatim>\<open>do_query\<close> writes
  the message and returns \<^verbatim>\<open>NULL\<close>, which the loop reads as a result of 0 rows and
  0 columns. On a pass with \<^verbatim>\<open>first_iter\<close> set, \<^verbatim>\<open>NULL\<close> becomes the previous result
  and nothing is drawn. On a pass without it, when the previous row count is negative
  the pass takes the branch of a grown result; otherwise the arrays are made, compared
  and sorted over no rows, \<^verbatim>\<open>print_data\<close> draws an empty table, and \<^verbatim>\<open>NULL\<close> and 0
  become the previous result and its row count.
\<close>

theorem query_failure_tick:
  assumes "PQresultStatus ans \<noteq> PG_TUP_OK"
  shows "do_query ans = (None, [Puts ''We didn't get any data.'']) \<and>
    (first_iter s \<longrightarrow>
       tick h s ans = Some (s\<lparr>first_iter := False, p_res := None\<rparr>,
                            [Puts ''We didn't get any data.''])) \<and>
    (\<not> first_iter s \<and> n_prev_rows s < 0 \<longrightarrow>
       tick h s ans = Some (s\<lparr>p_res := None, n_prev_rows := 0\<rparr>,
                            [Puts ''We didn't get any data.''])) \<and>
    (\<not> first_iter s \<and> 0 \<le> n_prev_rows s \<and>
     sort_state (screens s ! console_index s) = Some (key, desc) \<longrightarrow>
       tick h s ans = Some (s\<lparr>p_res := None, n_prev_rows := 0\<rparr>,
                            [Puts ''We didn't get any data.'', Print_data [] key []]))"
proof -
  note q = do_query_failed[OF assms]
  have n: "PQntuples None = 0" "PQnfields None = 0" by (simp_all add: PQntuples_def PQnfields_def)
  have 1: "first_iter s \<longrightarrow>
       tick h s ans = Some (s\<lparr>first_iter := False, p_res := None\<rparr>,
                            [Puts ''We didn't get any data.''])"
    using tick_first[of s h ans] q by simp
  have 2: "\<not> first_iter s \<and> n_prev_rows s < 0 \<longrightarrow>
       tick h s ans = Some (s\<lparr>p_res := None, n_prev_rows := 0\<rparr>,
                            [Puts ''We didn't get any data.''])"
    using tick_grow[of s ans h] q n by simp
  have 3: "\<not> first_iter s \<and> 0 \<le> n_prev_rows s \<and>
     sort_state (screens s ! console_index s) = Some (key, desc) \<longrightarrow>
       tick h s ans = Some (s\<lparr>p_res := None, n_prev_rows := 0\<rparr>,
                            [Puts ''We didn't get any data.'', Print_data [] key []])"
  proof
    assume a: "\<not> first_iter s \<and> 0 \<le> n_prev_rows s \<and>
     sort_state (screens s ! console_index s) = Some (key, desc)"
    have d: "diff_arrays h [] [] (current_context (screens s ! console_index s)) 0 0 = []"
      by (simp add: diff_arrays_def split: prod.splits)
    show "tick h s ans = Some (s\<lparr>p_res := None, n_prev_rows := 0\<rparr>,
                            [Puts ''We didn't get any data.'', Print_data [] key []])"
      using tick_render[of s None ans "[Puts ''We didn't get any data.'']" "[]" "[]" h "[]"
              "Print_data [] key []"] a q n d
        pgrescpy_empty[of "p_res s" 0] pgrescpy_empty[of None 0]
        sort_array_empty[of "screens s ! console_index s" key desc h 0]
        print_data_null[of "screens s ! console_index s" key desc]
      by simp
  qed
  show ?thesis using q 1 2 3 by blast
qed

lemma example_screen0:
  "screens example_state ! console_index example_state =
     (view_screen example_h pg_stat_user_tables)\<lparr>conn_used := True\<rparr>"
  by (simp add: example_state_def example_screens_def init_screens_def MAX_CONSOLE_def)

lemma sort_state_conn_used [simp]: "sort_state (scr\<lparr>conn_used := b\<rparr>) = sort_state scr"
  by (simp add: sort_state_def)

lemma example_key: "sort_state (screens example_state ! console_index example_state) = Some (1, True)"
  by (simp add: example_screen0 sort_state_view_screen example_h_def)

text \<open>
  C1 as stated fails: after a first pass, a failed query is followed by
  \<^verbatim>\<open>print_data\<close>, and the previous result and its row count are replaced.
\<close>

theorem query_failure_counterexample:
  "PQresultStatus (Some failed_result) \<noteq> PG_TUP_OK \<and>
   tick example_h example_state (Some failed_result) =
     Some (example_state\<lparr>p_res := None, n_prev_rows := 0\<rparr>,
           [Puts ''We didn't get any data.'', Print_data [] 1 []]) \<and>
   p_res example_state \<noteq> None \<and> n_prev_rows example_state = 1"
proof -
  have f: "PQresultStatus (Some failed_result) \<noteq> PG_TUP_OK"
    by (simp add: PQresultStatus_def failed_result_def PG_TUP_OK_def)
  have n: "PQntuples None = 0" "PQnfields None = 0" by (simp_all add: PQntuples_def PQnfields_def)
  have s: "\<not> first_iter example_state" "n_prev_rows example_state = 1"
    "p_res example_state \<noteq> None"
    by (simp_all add: example_state_def example_result_def)
  have d: "diff_arrays example_h [] []
             (current_context (screens example_state ! console_index example_state)) 0 0 = []"
    by (simp add: diff_arrays_def split: prod.splits)
  have "tick example_h example_state (Some failed_result) =
     Some (example_state\<lparr>p_res := None, n_prev_rows := 0\<rparr>,
           [Puts ''We didn't get any data.'', Print_data [] 1 []])"
    using tick_render[of example_state None "Some failed_result" "[Puts ''We didn't get any data.'']"
            "[]" "[]" example_h "[]" "Print_data [] 1 []"]
      do_query_failed[OF f] s n d pgrescpy_empty[of _ 0]
      sort_array_empty[OF example_key, of example_h 0] print_data_null[OF example_key]
    by simp
  then show ?thesis using f s by simp
qed

theorem query_failure_tick_witness:
  "PQresultStatus (Some failed_result) \<noteq> PG_TUP_OK \<and>
   \<not> first_iter example_state \<and> 0 \<le> n_prev_rows example_state \<and>
   sort_state (screens example_state ! console_index example_state) = Some (1, True) \<and>
   do_query (Some failed_result) = (None, [Puts ''We didn't get any data.'']) \<and>
   tick example_h example_state (Some failed_result) =
     Some (example_state\<lparr>p_res := None, n_prev_rows := 0\<rparr>,
           [Puts ''We didn't get any data.'', Print_data [] 1 []]) \<and>
   first_iter (example_state\<lparr>first_iter := True\<rparr>) \<and>
   tick example_h (example_state\<lparr>first_iter := True\<rparr>) (Some failed_result) =
     Some (example_state\<lparr>first_iter := False, p_res := None\<rparr>, [Puts ''We didn't get any data.''])"
proof -
  have f: "PQresultStatus (Some failed_result) \<noteq> PG_TUP_OK"
    by (simp add: PQresultStatus_def failed_result_def PG_TUP_OK_def)
  have s: "\<not> first_iter example_state" "0 \<le> n_prev_rows example_state"
    by (simp_all add: example_state_def)
  show ?thesis
    using query_failure_tick[OF f, of example_state example_h 1 True]
      query_failure_tick[OF f, of "example_state\<lparr>first_iter := True\<rparr>" example_h 1 True]
      f s example_key
    by simp
qed

lemma sort_array_shaped:
  assumes "shaped a n c" "sort_array h a n c scr = Some b"
  shows "shaped b n c \<and> mset b = mset a"
  using assms sort_outer_sorted[OF assms(1)]
  by (auto simp: sort_array_def split: if_splits option.splits prod.splits)

lemma pgrescpy_shaped: "pgrescpy res n m = Some a \<Longrightarrow> shaped a n m"
  by (auto simp: pgrescpy_def shaped_def list_all_iff split: if_splits)

lemma shaped_reindex:
  assumes "shaped a n m"
  shows "map (\<lambda>i. map (\<lambda>j. a ! i ! j) [0..<m]) [0..<n] = a"
proof (rule shaped_eqI[OF _ assms])
  show "shaped (map (\<lambda>i. map (\<lambda>j. a ! i ! j) [0..<m]) [0..<n]) n m"
    by (auto simp: shaped_def list_all_iff)
qed simp

lemma print_data_ok:
  assumes "shaped a (PQntuples (Some r)) (PQnfields (Some r))" "sort_state scr = Some (key, desc)"
  shows "print_data (Some r) a (PQntuples (Some r)) (PQnfields (Some r)) scr =
           Some (Print_data (attnames r) key a)"
proof -
  have "map (\<lambda>j. the (PQfname (Some r) j)) [0..<length (attnames r)] = attnames r"
    by (intro nth_equalityI) (simp_all add: PQfname_def)
  moreover have "list_all (\<lambda>j. PQfname (Some r) j \<noteq> None) [0..<length (attnames r)]"
    by (simp add: list_all_iff PQfname_def)
  ultimately show ?thesis
    using assms shaped_reindex[OF assms(1)]
    by (simp add: print_data_def PQnfields_def)
qed

text \<open>
  C3, on the code: the pass with \<^verbatim>\<open>first_iter\<close> set stores the current result and
  clears the flag and draws nothing, but it leaves \<^verbatim>\<open>n_prev_rows\<close> as it was. Here
  the loop starts with the value 7 in \<^verbatim>\<open>n_prev_rows\<close> and the result has 3 rows.
\<close>

theorem first_tick_keeps_row_count:
  "first_iter (main_init example_screens None 7) \<and>
   PQntuples (Some (example_result tables_rows)) = 3 \<and>
   tick example_h (main_init example_screens None 7) (Some (example_result tables_rows)) =
     Some ((main_init example_screens None 7)
             \<lparr>first_iter := False, p_res := Some (example_result tables_rows)\<rparr>, []) \<and>
   n_prev_rows ((main_init example_screens None 7)
             \<lparr>first_iter := False, p_res := Some (example_result tables_rows)\<rparr>) = 7"
proof -
  have ok: "PQresultStatus (Some (example_result tables_rows)) = PG_TUP_OK"
    by (simp add: PQresultStatus_def example_result_def PG_TUP_OK_def)
  have f: "first_iter (main_init example_screens None 7)" by (simp add: main_init_def)
  have n: "PQntuples (Some (example_result tables_rows)) = 3"
    by (simp add: PQntuples_def example_result_def tables_rows_def)
  show ?thesis
    using tick_first[OF f, of example_h "Some (example_result tables_rows)"] do_query_ok[OF ok] f n
    by (simp add: main_init_def)
qed

text \<open>
  Row growth past the first pass. After a pass without \<^verbatim>\<open>first_iter\<close> whose query
  returned fewer rows than the next one, the next pass draws nothing and takes its
  result and row count as the previous ones; the pass after it, with as many rows,
  draws the array that \<^verbatim>\<open>sort_array\<close> makes of the difference between that result and
  its own (where \<^verbatim>\<open>pgrescpy\<close> and \<^verbatim>\<open>sort_array\<close> read no cell that a result lacks).
\<close>

lemma row_growth_rebase:
  assumes "\<not> first_iter s" and "tick h s a1 = Some (s1, o1)"
    and "PQresultStatus (Some r2) = PG_TUP_OK" and "PQresultStatus (Some r3) = PG_TUP_OK"
    and "PQntuples (fst (do_query a1)) < PQntuples (Some r2)"
    and "PQntuples (Some r3) = PQntuples (Some r2)"
    and "sort_state (screens s ! console_index s) = Some (key, desc)"
    and "pgrescpy (Some r2) (PQntuples (Some r3)) (PQnfields (Some r3)) = Some p_arr"
    and "pgrescpy (Some r3) (PQntuples (Some r3)) (PQnfields (Some r3)) = Some c_arr"
    and "sort_array h
           (diff_arrays h p_arr c_arr (current_context (screens s ! console_index s))
              (PQntuples (Some r3)) (PQnfields (Some r3)))
           (PQntuples (Some r3)) (PQnfields (Some r3)) (screens s ! console_index s) = Some r_arr"
  shows "tick h s1 (Some r2) =
           Some (s1\<lparr>p_res := Some r2, n_prev_rows := int (PQntuples (Some r2))\<rparr>, []) \<and>
         tick h (s1\<lparr>p_res := Some r2, n_prev_rows := int (PQntuples (Some r2))\<rparr>) (Some r3) =
           Some (s1\<lparr>p_res := Some r3, n_prev_rows := int (PQntuples (Some r3))\<rparr>,
                 [Print_data (attnames r3) key r_arr])"
proof -
  note a = tick_after[OF assms(2)]
  have s1: "\<not> first_iter s1" "n_prev_rows s1 = int (PQntuples (fst (do_query a1)))"
    "screens s1 = screens s" "console_index s1 = console_index s"
    using a assms(1) by simp_all
  note q2 = do_query_ok[OF assms(3)]
  note q3 = do_query_ok[OF assms(4)]
  have 1: "tick h s1 (Some r2) =
           Some (s1\<lparr>p_res := Some r2, n_prev_rows := int (PQntuples (Some r2))\<rparr>, [])"
    using tick_grow[of s1 "Some r2" h] s1 q2 assms(5) by simp
  let ?s2 = "s1\<lparr>p_res := Some r2, n_prev_rows := int (PQntuples (Some r2))\<rparr>"
  have sh: "shaped r_arr (PQntuples (Some r3)) (PQnfields (Some r3))"
    using sort_array_shaped[OF diff_arrays_shaped assms(10)] by simp
  have 2: "tick h ?s2 (Some r3) =
      Some (?s2\<lparr>p_res := Some r3, n_prev_rows := int (PQntuples (Some r3))\<rparr>,
            [] @ [Print_data (attnames r3) key r_arr])"
    by (rule tick_render[where p_arr = p_arr and c_arr = c_arr and r_arr = r_arr])
       (use s1 q3 assms print_data_ok[OF sh assms(7)] in simp_all)
  show ?thesis using 1 2 by simp
qed

lemmas eval_c = atoll_def isspace_def isdigit_def digit_val_def LLONG_MAX_def LLONG_MIN_def
  lli_format_def ll_sub_def decimal.simps digit_char_def

lemma example_result_facts:
  "PQresultStatus (Some (example_result rows)) = PG_TUP_OK"
  "PQntuples (Some (example_result rows)) = length rows"
  "PQnfields (Some (example_result rows)) = 2"
  by (simp_all add: PQresultStatus_def PQntuples_def PQnfields_def example_result_def PG_TUP_OK_def)

lemma pgrescpy_t1: "pgrescpy (Some (example_result [[''t1'', ''5'']])) 1 2 = Some [[''t1'', ''5'']]"
  by (simp add: pgrescpy_def cell_ok_def PQgetvalue_def example_result_def upt_rec)

lemma pgrescpy_tables_rows: "pgrescpy (Some (example_result tables_rows)) 3 2 = Some tables_rows"
  by (simp add: pgrescpy_def cell_ok_def PQgetvalue_def example_result_def upt_rec tables_rows_def)

lemma pgrescpy_tables_rows_later:
  "pgrescpy (Some (example_result tables_rows_later)) 3 2 = Some tables_rows_later"
  by (simp add: pgrescpy_def cell_ok_def PQgetvalue_def example_result_def upt_rec
      tables_rows_later_def)

lemma example_context:
  "current_context (screens example_state ! console_index example_state) = pg_stat_user_tables"
  by (simp add: example_screen0 view_screen_def)

lemma diff_t1: "diff_arrays example_h [[''t1'', ''5'']] [[''t1'', ''5'']] pg_stat_user_tables 1 2
        = [[''t1'', ''0'']]"
  by (simp add: diff_arrays_def diff_range_def example_h_def diff_cell_def upt_rec eval_c)

lemma diff_tables_rows:
  "diff_arrays example_h tables_rows tables_rows_later pg_stat_user_tables 3 2
     = [[''t1'', ''1''], [''t2'', ''10''], [''t3'', ''0'']]"
  by (simp add: diff_arrays_def diff_range_def example_h_def diff_cell_def upt_rec eval_c
      tables_rows_def tables_rows_later_def)

lemma sort_array_example:
  assumes "sort_state scr = Some (1, True)" "current_context scr = pg_stat_user_tables"
  shows "sort_array example_h [[''t1'', ''0'']] 1 2 scr = Some [[''t1'', ''0'']]"
    and "sort_array example_h [[''t1'', ''1''], [''t2'', ''10''], [''t3'', ''0'']] 3 2 scr
           = Some [[''t2'', ''10''], [''t1'', ''1''], [''t3'', ''0'']]"
    and "sort_array example_h [[''u1'', ''3'']] 1 2 scr = Some [[''u1'', ''3'']]"
proof -
  have i: "INVALID_ORDER_KEY example_h = - 1" by (simp add: example_h_def)
  show "sort_array example_h [[''t1'', ''0'']] 1 2 scr = Some [[''t1'', ''0'']]"
    "sort_array example_h [[''u1'', ''3'']] 1 2 scr = Some [[''u1'', ''3'']]"
    by (simp_all add: sort_array_def assms i sort_outer_def sort_inner_def upt_rec)
  have "sort_outer True 1 2 3 3 [[''t1'', ''1''], [''t2'', ''10''], [''t3'', ''0'']]
          = [[''t2'', ''10''], [''t1'', ''1''], [''t3'', ''0'']]"
    by (simp add: sort_outer_def sort_inner_def sort_step_def swap_rows_def upt_rec eval_c)
  then show "sort_array example_h [[''t1'', ''1''], [''t2'', ''10''], [''t3'', ''0'']] 3 2 scr
           = Some [[''t2'', ''10''], [''t1'', ''1''], [''t3'', ''0'']]"
    by (simp add: sort_array_def assms i)
qed

lemma example_tick_t1:
  "tick example_h example_state (Some (example_result [[''t1'', ''5'']])) =
     Some (example_state, [Print_data [''relname'', ''seq_scan''] 1 [[''t1'', ''0'']]])"
proof -
  have e: "example_state\<lparr>p_res := Some (example_result [[''t1'', ''5'']]), n_prev_rows := int 1\<rparr>
            = example_state"
    by (simp add: example_state_def)
  have pd: "print_data (Some (example_result [[''t1'', ''5'']])) [[''t1'', ''0'']] 1 2
      (screens example_state ! console_index example_state) =
      Some (Print_data [''relname'', ''seq_scan''] 1 [[''t1'', ''0'']])"
    using print_data_ok[of "[[''t1'', ''0'']]" "example_result [[''t1'', ''5'']]" _ 1 True,
        OF _ example_key]
    by (simp add: example_result_facts shaped_def) (simp add: example_result_def)
  have "tick example_h example_state (Some (example_result [[''t1'', ''5'']])) =
     Some (example_state\<lparr>p_res := Some (example_result [[''t1'', ''5'']]), n_prev_rows := int 1\<rparr>,
       [] @ [Print_data [''relname'', ''seq_scan''] 1 [[''t1'', ''0'']]])"
    using tick_render[of example_state "Some (example_result [[''t1'', ''5'']])"
        "Some (example_result [[''t1'', ''5'']])" "[]" "[[''t1'', ''5'']]" "[[''t1'', ''5'']]" example_h
        "[[''t1'', ''0'']]" "Print_data [''relname'', ''seq_scan''] 1 [[''t1'', ''0'']]"]
      do_query_ok[OF example_result_facts(1)] example_result_facts(2,3) pgrescpy_t1
      example_context diff_t1 sort_array_example(1)[OF example_key example_context] pd
    by (simp add: example_state_def)
  then show ?thesis using e by simp
qed

lemma row_growth_rebase_example:
  "\<not> first_iter example_state \<and>
   tick example_h example_state (Some (example_result [[''t1'', ''5'']])) =
     Some (example_state, [Print_data [''relname'', ''seq_scan''] 1 [[''t1'', ''0'']]]) \<and>
   PQntuples (fst (do_query (Some (example_result [[''t1'', ''5'']])))) = 1 \<and>
   PQntuples (Some (example_result tables_rows)) = 3 \<and>
   PQntuples (Some (example_result tables_rows_later)) = 3 \<and>
   tick example_h example_state (Some (example_result tables_rows)) =
     Some (example_state\<lparr>p_res := Some (example_result tables_rows), n_prev_rows := 3\<rparr>, []) \<and>
   tick example_h (example_state\<lparr>p_res := Some (example_result tables_rows), n_prev_rows := 3\<rparr>)
       (Some (example_result tables_rows_later)) =
     Some (example_state\<lparr>p_res := Some (example_result tables_rows_later), n_prev_rows := 3\<rparr>,
           [Print_data [''relname'', ''seq_scan''] 1
              [[''t2'', ''10''], [''t1'', ''1''], [''t3'', ''0'']]])"
proof -
  have f: "\<not> first_iter example_state" by (simp add: example_state_def)
  have n: "PQntuples (fst (do_query (Some (example_result [[''t1'', ''5'']])))) = 1"
    "PQntuples (Some (example_result tables_rows)) = 3" "PQntuples (Some (example_result tables_rows_later)) = 3"
    by (simp_all add: do_query_ok[OF example_result_facts(1)] example_result_facts(2)
        tables_rows_def tables_rows_later_def)
  have t: "tick example_h example_state (Some (example_result tables_rows)) =
     Some (example_state\<lparr>p_res := Some (example_result tables_rows), n_prev_rows := 3\<rparr>, []) \<and>
   tick example_h (example_state\<lparr>p_res := Some (example_result tables_rows), n_prev_rows := 3\<rparr>)
       (Some (example_result tables_rows_later)) =
     Some (example_state\<lparr>p_res := Some (example_result tables_rows_later), n_prev_rows := 3\<rparr>,
           [Print_data [''relname'', ''seq_scan''] 1
              [[''t2'', ''10''], [''t1'', ''1''], [''t3'', ''0'']]])"
    using row_growth_rebase[OF f example_tick_t1, where ?r2.0 = "example_result tables_rows"
        and ?r3.0 = "example_result tables_rows_later" and key = 1 and desc = True
        and p_arr = tables_rows and c_arr = tables_rows_later
        and r_arr = "[[''t2'', ''10''], [''t1'', ''1''], [''t3'', ''0'']]"]
      example_result_facts(1) n example_result_facts(3) example_key
      pgrescpy_tables_rows pgrescpy_tables_rows_later example_context diff_tables_rows
      sort_array_example(2)[OF example_key example_context]
    by (simp add: example_result_def)
  show ?thesis using f example_tick_t1 n t by simp
qed

text \<open>
  A result with fewer rows than are asked of it: \<^verbatim>\<open>PQgetvalue\<close> returns \<^verbatim>\<open>NULL\<close> for the
  first row that is missing, and \<^verbatim>\<open>pgrescpy\<close> passes it to \<^verbatim>\<open>strcpy\<close>.
\<close>

lemma pgrescpy_missing_row:
  assumes "PQntuples (Some r) < n_rows" and "0 < n_cols"
  shows "pgrescpy (Some r) n_rows n_cols = None"
proof -
  have "\<not> cell_ok (Some r) (length (tuples r)) 0"
    by (simp add: cell_ok_def PQgetvalue_def)
  moreover have "length (tuples r) \<in> set [0..<n_rows]" "0 \<in> set [0..<n_cols]"
    using assms by (simp_all add: PQntuples_def)
  ultimately have
    "\<not> list_all (\<lambda>i. list_all (\<lambda>j. cell_ok (Some r) i j) [0..<n_cols]) [0..<n_rows]"
    unfolding list_all_iff by blast
  then show ?thesis by (simp add: pgrescpy_def)
qed

text \<open>
  C4, on the code. Of two passes that return fewer and then more rows, the first may
  be the pass with \<^verbatim>\<open>first_iter\<close> set, as it is when the program starts and after every
  change of view: it stores its result and draws nothing, and it keeps
  \<^verbatim>\<open>n_prev_rows\<close> as it was. The second pass then draws nothing and takes its result and
  row count as the previous ones only if the row count that was kept is below its own.
  Otherwise it compares its result with the stored one, \<^verbatim>\<open>pgrescpy\<close> reads a row that
  the stored result does not have, and the pass has no defined outcome.
\<close>

theorem row_growth_after_first_tick:
  assumes "first_iter s"
    and "PQresultStatus (Some r1) = PG_TUP_OK" and "PQresultStatus (Some r2) = PG_TUP_OK"
    and "PQntuples (Some r1) < PQntuples (Some r2)" and "0 < PQnfields (Some r2)"
  shows "tick h s (Some r1) = Some (s\<lparr>first_iter := False, p_res := Some r1\<rparr>, []) \<and>
         n_prev_rows (s\<lparr>first_iter := False, p_res := Some r1\<rparr>) = n_prev_rows s \<and>
         (if n_prev_rows s < int (PQntuples (Some r2))
          then tick h (s\<lparr>first_iter := False, p_res := Some r1\<rparr>) (Some r2) =
                 Some (s\<lparr>first_iter := False, p_res := Some r2,
                         n_prev_rows := int (PQntuples (Some r2))\<rparr>, [])
          else tick h (s\<lparr>first_iter := False, p_res := Some r1\<rparr>) (Some r2) = None)"
proof -
  let ?s1 = "s\<lparr>first_iter := False, p_res := Some r1\<rparr>"
  note q1 = do_query_ok[OF assms(2)]
  note q2 = do_query_ok[OF assms(3)]
  have 1: "tick h s (Some r1) = Some (?s1, [])"
    using tick_first[OF assms(1), of h "Some r1"] q1 by simp
  have 2: "tick h ?s1 (Some r2) =
             Some (s\<lparr>first_iter := False, p_res := Some r2,
                     n_prev_rows := int (PQntuples (Some r2))\<rparr>, [])"
    if "n_prev_rows s < int (PQntuples (Some r2))"
    using tick_grow[of ?s1 "Some r2" h] q2 that by simp
  have 3: "tick h ?s1 (Some r2) = None" if "\<not> n_prev_rows s < int (PQntuples (Some r2))"
    using pgrescpy_missing_row[OF assms(4,5)] q2 that by (simp add: tick_def Let_def)
  show ?thesis using 1 2 3 by simp
qed

theorem row_growth_after_first_tick_witness:
  "first_iter (main_init example_screens None 7) \<and>
   PQresultStatus (Some (example_result [[''t1'', ''5'']])) = PG_TUP_OK \<and>
   PQresultStatus (Some (example_result tables_rows)) = PG_TUP_OK \<and>
   PQntuples (Some (example_result [[''t1'', ''5'']])) = 1 \<and>
   PQntuples (Some (example_result tables_rows)) = 3 \<and>
   PQnfields (Some (example_result tables_rows)) = 2 \<and>
   tick example_h (main_init example_screens None 7) (Some (example_result [[''t1'', ''5'']])) =
     Some ((main_init example_screens None 7)
             \<lparr>first_iter := False, p_res := Some (example_result [[''t1'', ''5'']])\<rparr>, []) \<and>
   n_prev_rows ((main_init example_screens None 7)
             \<lparr>first_iter := False, p_res := Some (example_result [[''t1'', ''5'']])\<rparr>) = 7 \<and>
   tick example_h
     ((main_init example_screens None 7)
        \<lparr>first_iter := False, p_res := Some (example_result [[''t1'', ''5'']])\<rparr>)
     (Some (example_result tables_rows)) = None \<and>
   tick example_h
     ((main_init example_screens None 2)
        \<lparr>first_iter := False, p_res := Some (example_result [[''t1'', ''5'']])\<rparr>)
     (Some (example_result tables_rows)) =
     Some ((main_init example_screens None 2)
             \<lparr>first_iter := False, p_res := Some (example_result tables_rows),
              n_prev_rows := 3\<rparr>, [])"
proof -
  have f: "first_iter (main_init example_screens None n)" for n by (simp add: main_init_def)
  have n: "PQntuples (Some (example_result [[''t1'', ''5'']])) = 1"
    "PQntuples (Some (example_result tables_rows)) = 3"
    "PQnfields (Some (example_result tables_rows)) = 2"
    by (simp_all add: example_result_facts tables_rows_def)
  have l: "PQntuples (Some (example_result [[''t1'', ''5'']])) <
           PQntuples (Some (example_result tables_rows))"
    "0 < PQnfields (Some (example_result tables_rows))"
    by (simp_all add: n)
  have p: "n_prev_rows (main_init example_screens None 7) = 7"
    "n_prev_rows (main_init example_screens None 2) = 2"
    by (simp_all add: main_init_def)
  note t7 = row_growth_after_first_tick[OF f[of 7] example_result_facts(1)
      example_result_facts(1) l, where h = example_h]
  note t2 = row_growth_after_first_tick[OF f[of 2] example_result_facts(1)
      example_result_facts(1) l, where h = example_h]
  show ?thesis using t7 t2 f[of 7] n p example_result_facts(1) by simp
qed


lemma switch_conn_used:
  "conn_used (scrs ! nat (ch - ord CHR ''0'' - 1)) \<Longrightarrow>
   fst (switch_conn scrs ch ci cn) = nat (ch - ord CHR ''0'' - 1)"
  by (simp add: switch_conn_def)

lemma switch_conn_unused:
  "\<not> conn_used (scrs ! nat (ch - ord CHR ''0'' - 1)) \<Longrightarrow> fst (switch_conn scrs ch ci cn) = ci"
  by (simp add: switch_conn_def)




lemma sort_state_screen [simp]: "sort_state (scr\<lparr>screen := i\<rparr>) = sort_state scr"
  by (simp add: sort_state_def)


text \<open>
  What the stale row count of C3 leads to: after a pass with \<^verbatim>\<open>first_iter\<close> set that
  stored a result of one row while \<^verbatim>\<open>n_prev_rows\<close> was 5, a result of two rows is
  compared with the stored one, and \<^verbatim>\<open>pgrescpy\<close> copies a row that does not exist.
\<close>

lemma stale_row_count_fault:
  "tick example_h (example_state\<lparr>first_iter := True, n_prev_rows := 5\<rparr>)
       (Some (example_result [[''t1'', ''5'']])) =
     Some (example_state\<lparr>first_iter := False, n_prev_rows := 5\<rparr>, []) \<and>
   tick example_h (example_state\<lparr>first_iter := False, n_prev_rows := 5\<rparr>)
       (Some (example_result [[''t1'', ''6''], [''t2'', ''1'']])) = None"
proof -
  have e: "example_state\<lparr>first_iter := True, n_prev_rows := 5, first_iter := False,
              p_res := Some (example_result [[''t1'', ''5'']])\<rparr> =
           example_state\<lparr>first_iter := False, n_prev_rows := 5\<rparr>"
    by (simp add: example_state_def)
  have 1: "tick example_h (example_state\<lparr>first_iter := True, n_prev_rows := 5\<rparr>)
       (Some (example_result [[''t1'', ''5'']])) =
     Some (example_state\<lparr>first_iter := False, n_prev_rows := 5\<rparr>, [])"
    using tick_first[of "example_state\<lparr>first_iter := True, n_prev_rows := 5\<rparr>" example_h
        "Some (example_result [[''t1'', ''5'']])"] do_query_ok[OF example_result_facts(1)] e
    by simp
  have p: "pgrescpy (Some (example_result [[''t1'', ''5'']])) (Suc (Suc 0)) 2 = None"
    by (simp add: pgrescpy_def cell_ok_def PQgetvalue_def example_result_def upt_rec)
  have 2: "tick example_h (example_state\<lparr>first_iter := False, n_prev_rows := 5\<rparr>)
       (Some (example_result [[''t1'', ''6''], [''t2'', ''1'']])) = None"
    using p do_query_ok[OF example_result_facts(1), of "[[''t1'', ''6''], [''t2'', ''1'']]"]
    by (simp add: tick_def Let_def example_result_facts(2,3)) (simp add: example_state_def)
  show ?thesis using 1 2 by simp
qed

subsection \<open>The CPU line\<close>

lemma ll_sp_value_spec: "ll_sp_value v1 v2 itv = spec_pct (unat itv) v1 v2"
proof (cases "v2 < v1")
  case True
  then show ?thesis by (simp add: ll_sp_value_def spec_pct_def)
next
  case False
  then have le: "v1 \<le> v2" by simp
  then have "unat (v2 - v1) = unat v2 - unat v1" by (simp add: unat_sub)
  moreover have "unat v1 \<le> unat v2" using le by (simp add: word_le_nat_alt)
  ultimately have "real (unat (v2 - v1)) = real (unat v2) - real (unat v1)"
    by (simp add: of_nat_diff)
  then show ?thesis using False by (simp add: ll_sp_value_def spec_pct_def SP_VALUE_def)
qed

lemma get_interval_spec: "unat (get_interval p c) = spec_interval p c"
proof (cases "c - p = 0")
  case True
  then show ?thesis by (simp add: get_interval_def spec_interval_def)
next
  case False
  then have "unat (c - p) \<noteq> 0" by (simp add: unat_eq_0)
  then show ?thesis using False by (simp add: get_interval_def spec_interval_def Let_def)
qed

text \<open>
  C7. Each of the eight numbers of the CPU line is the percentage of the spec for its
  counter (for \<open>sy\<close> the sum of the \<^verbatim>\<open>sys\<close>, \<^verbatim>\<open>softirq\<close> and \<^verbatim>\<open>hardirq\<close> counters): it
  is 0 when the current counter is smaller than the previous one, and
  \<open>100 \<cdot> (curr - prev) / interval\<close> otherwise, where the interval between the two
  totals is at least 1, and is 1 when the totals are equal.
\<close>

theorem cpu_regression_clamp:
  "print_cpu_usage p c =
     \<lparr> pct_us = spec_pct (spec_interval (cpu_total p) (cpu_total c)) (cpu_user p) (cpu_user c),
       pct_sy = spec_pct (spec_interval (cpu_total p) (cpu_total c))
                  (cpu_sys p + cpu_softirq p + cpu_hardirq p)
                  (cpu_sys c + cpu_softirq c + cpu_hardirq c),
       pct_ni = spec_pct (spec_interval (cpu_total p) (cpu_total c)) (cpu_nice p) (cpu_nice c),
       pct_id = spec_pct (spec_interval (cpu_total p) (cpu_total c)) (cpu_idle p) (cpu_idle c),
       pct_wa = spec_pct (spec_interval (cpu_total p) (cpu_total c)) (cpu_iowait p) (cpu_iowait c),
       pct_hi = spec_pct (spec_interval (cpu_total p) (cpu_total c)) (cpu_hardirq p) (cpu_hardirq c),
       pct_si = spec_pct (spec_interval (cpu_total p) (cpu_total c)) (cpu_softirq p) (cpu_softirq c),
       pct_st = spec_pct (spec_interval (cpu_total p) (cpu_total c)) (cpu_steal p) (cpu_steal c) \<rparr> \<and>
   (\<forall>i x y. y < x \<longrightarrow> spec_pct i x y = 0) \<and>
   1 \<le> spec_interval (cpu_total p) (cpu_total c) \<and>
   (cpu_total c = cpu_total p \<longrightarrow> spec_interval (cpu_total p) (cpu_total c) = 1)"
proof -
  have id: "(if cpu_idle c < cpu_idle p then 0
             else spec_pct i (cpu_idle p) (cpu_idle c)) = spec_pct i (cpu_idle p) (cpu_idle c)" for i
    by (simp add: spec_pct_def)
  have 1: "print_cpu_usage p c = \<lparr> pct_us = spec_pct (spec_interval (cpu_total p) (cpu_total c)) (cpu_user p) (cpu_user c),
       pct_sy = spec_pct (spec_interval (cpu_total p) (cpu_total c))
                  (cpu_sys p + cpu_softirq p + cpu_hardirq p)
                  (cpu_sys c + cpu_softirq c + cpu_hardirq c),
       pct_ni = spec_pct (spec_interval (cpu_total p) (cpu_total c)) (cpu_nice p) (cpu_nice c),
       pct_id = spec_pct (spec_interval (cpu_total p) (cpu_total c)) (cpu_idle p) (cpu_idle c),
       pct_wa = spec_pct (spec_interval (cpu_total p) (cpu_total c)) (cpu_iowait p) (cpu_iowait c),
       pct_hi = spec_pct (spec_interval (cpu_total p) (cpu_total c)) (cpu_hardirq p) (cpu_hardirq c),
       pct_si = spec_pct (spec_interval (cpu_total p) (cpu_total c)) (cpu_softirq p) (cpu_softirq c),
       pct_st = spec_pct (spec_interval (cpu_total p) (cpu_total c)) (cpu_steal p) (cpu_steal c) \<rparr>"
    unfolding print_cpu_usage_def write_cpu_stat_raw_def ll_sp_value_spec get_interval_spec id
    by (rule refl)
  have 2: "\<forall>i x y. y < x \<longrightarrow> spec_pct i x y = 0" by (simp add: spec_pct_def)
  have 3: "1 \<le> spec_interval (cpu_total p) (cpu_total c)" by (simp add: spec_interval_def)
  have 4: "cpu_total c = cpu_total p \<longrightarrow> spec_interval (cpu_total p) (cpu_total c) = 1"
    by (simp add: spec_interval_def)
  show ?thesis using 1 2 3 4 by blast
qed

theorem cpu_regression_clamp_witness:
  "cpu_user example_cpu_curr < cpu_user example_cpu_prev \<and>
   pct_us (print_cpu_usage example_cpu_prev example_cpu_curr) = 0 \<and>
   pct_sy (print_cpu_usage example_cpu_prev example_cpu_curr) = 100 \<and>
   pct_id (print_cpu_usage example_cpu_prev example_cpu_curr) = 50 \<and>
   pct_us (print_cpu_usage example_cpu_prev example_cpu_prev) = 0 \<and>
   spec_interval (cpu_total example_cpu_prev) (cpu_total example_cpu_prev) = 1"
proof -
  have u: "cpu_user example_cpu_curr < cpu_user example_cpu_prev"
    by (simp add: example_cpu_curr_def example_cpu_prev_def)
  have t: "cpu_total example_cpu_prev = 160" "cpu_total example_cpu_curr = 180"
    by (simp_all add: cpu_total_def example_cpu_curr_def example_cpu_prev_def)
  have i: "spec_interval 160 180 = 20" "spec_interval 160 160 = 1"
    by (simp_all add: spec_interval_def)
  have f: "cpu_sys example_cpu_prev + cpu_softirq example_cpu_prev + cpu_hardirq example_cpu_prev = 10"
    "cpu_sys example_cpu_curr + cpu_softirq example_cpu_curr + cpu_hardirq example_cpu_curr = 30"
    "cpu_idle example_cpu_prev = 50" "cpu_idle example_cpu_curr = 60"
    "cpu_user example_cpu_prev = 100"
    by (simp_all add: example_cpu_curr_def example_cpu_prev_def)
  have v: "spec_pct 20 10 30 = 100" "spec_pct 20 50 60 = 50" "spec_pct 1 100 100 = 0"
    by (simp_all add: spec_pct_def)
  show ?thesis
    using cpu_regression_clamp[of example_cpu_prev example_cpu_curr]
      cpu_regression_clamp[of example_cpu_prev example_cpu_prev] u t i f v
    by simp
qed

subsection \<open>The min age dialogue\<close>

lemma char_of_ord: "char_of (ord c) = c"
  by (simp add: ord_def)

lemma ord_range: "0 \<le> ord c \<and> ord c < 256"
  by (simp add: ord_def)

lemma cmd_readline_typed:
  "list_all printable s \<Longrightarrow>
   cmd_readline sz str (map ord s @ 10 # rest) =
     (if length (str @ s) < sz then Some (False, str @ s, rest) else None)"
proof (induction s arbitrary: str)
  case Nil
  show ?case by (simp add: ERR_def)
next
  case (Cons c s)
  have k: "ord c \<noteq> ERR" "ord c \<noteq> KEY_BACKSPACE" "ord c \<noteq> KEY_DC"
    using ord_range[of c] by (simp_all add: ERR_def KEY_BACKSPACE_def KEY_DC_def)
  show ?case using Cons k by (auto simp: printable_def char_of_ord)
qed

lemma printable_nonzero: "printable c \<Longrightarrow> c \<noteq> CHR 0x00"
proof
  assume p: "printable c" and z: "c = CHR 0x00"
  have "ord (CHR 0x00) = 0" by (simp add: ord_def)
  then show False using p z by (simp add: printable_def)
qed

lemma c_str_printable: "list_all printable s \<Longrightarrow> c_str s = s"
  by (induction s) (simp_all add: c_str_def printable_nonzero)

lemma change_min_age_typed:
  assumes "list_all printable s" "s \<noteq> []" "length s < BUFFERSIZE_S h"
  shows "change_min_age h g scr (typed s) =
     (case sscanf_u3 s g of (n, hour, mn, sec) \<Rightarrow>
        if n = 0 \<or> (hour > 23 \<or> mn > 59 \<or> sec > 59)
        then Some (scr, [Wprintw_cmd ''Nothing to do. Failed read or invalid value.''], [])
        else Some (scr\<lparr>pg_stat_activity_min_age := take (sizeof_min_age h - 1) s\<rparr>, [], []))"
  using assms cmd_readline_typed[OF assms(1), of "BUFFERSIZE_S h" "[]" "[]"]
  by (simp add: change_min_age_def typed_def c_str_printable)

lemmas eval_scan = sscanf_u3_def scan_u_def isspace_def isdigit_def digit_val_def

lemma sscanf_examples:
  "sscanf_u3 ''00:00:00'' g = (3, 0, 0, 0)"
  "sscanf_u3 ''23:59:59'' g = (3, 23, 59, 59)"
  "sscanf_u3 ''01:02:03.99'' g = (3, 1, 2, 3)"
  "sscanf_u3 ''24:00:00'' g = (3, 24, 0, 0)"
  "sscanf_u3 ''00:60:00'' g = (3, 0, 60, 0)"
  "sscanf_u3 ''abc'' (h0, m0, s0) = (0, h0, m0, s0)"
  "sscanf_u3 ''12:30'' (h0, m0, s0) = (2, 12, 30, s0)"
  "sscanf_u3 ''1:2:3xyz'' g = (3, 1, 2, 3)"
  by (cases g; simp add: eval_scan)+

lemma printable_examples:
  "list_all printable ''00:00:00''" "list_all printable ''23:59:59''"
  "list_all printable ''01:02:03.99''" "list_all printable ''24:00:00''"
  "list_all printable ''00:60:00''" "list_all printable ''abc''"
  "list_all printable ''12:30''"
  by (simp_all add: printable_def ord_def)

lemma example_sizes: "BUFFERSIZE_S example_h = 16" "sizeof_min_age example_h = 16"
  by (simp_all add: example_h_def)

text \<open>
  The lines that C8 names: three are stored, three are refused with the message and
  leave the screen as it was, and the empty line leaves it with another message.
\<close>

lemma min_age_examples:
  "change_min_age example_h g scr (typed ''00:00:00'') =
     Some (scr\<lparr>pg_stat_activity_min_age := ''00:00:00''\<rparr>, [], [])"
  "change_min_age example_h g scr (typed ''23:59:59'') =
     Some (scr\<lparr>pg_stat_activity_min_age := ''23:59:59''\<rparr>, [], [])"
  "change_min_age example_h g scr (typed ''01:02:03.99'') =
     Some (scr\<lparr>pg_stat_activity_min_age := ''01:02:03.99''\<rparr>, [], [])"
  "change_min_age example_h g scr (typed ''24:00:00'') =
     Some (scr, [Wprintw_cmd ''Nothing to do. Failed read or invalid value.''], [])"
  "change_min_age example_h g scr (typed ''00:60:00'') =
     Some (scr, [Wprintw_cmd ''Nothing to do. Failed read or invalid value.''], [])"
  "change_min_age example_h g scr (typed ''abc'') =
     Some (scr, [Wprintw_cmd ''Nothing to do. Failed read or invalid value.''], [])"
  "change_min_age example_h g scr (typed []) =
     Some (scr, [Wprintw_cmd (''Nothing to do. Leave min age '' @ pg_stat_activity_min_age scr)], [])"
proof -
  show "change_min_age example_h g scr (typed ''00:00:00'') =
     Some (scr\<lparr>pg_stat_activity_min_age := ''00:00:00''\<rparr>, [], [])"
    using change_min_age_typed[OF printable_examples(1), of example_h g scr]
    by (simp add: example_sizes sscanf_examples)
  show "change_min_age example_h g scr (typed ''23:59:59'') =
     Some (scr\<lparr>pg_stat_activity_min_age := ''23:59:59''\<rparr>, [], [])"
    using change_min_age_typed[OF printable_examples(2), of example_h g scr]
    by (simp add: example_sizes sscanf_examples)
  show "change_min_age example_h g scr (typed ''01:02:03.99'') =
     Some (scr\<lparr>pg_stat_activity_min_age := ''01:02:03.99''\<rparr>, [], [])"
    using change_min_age_typed[OF printable_examples(3), of example_h g scr]
    by (simp add: example_sizes sscanf_examples)
  show "change_min_age example_h g scr (typed ''24:00:00'') =
     Some (scr, [Wprintw_cmd ''Nothing to do. Failed read or invalid value.''], [])"
    using change_min_age_typed[OF printable_examples(4), of example_h g scr]
    by (simp add: example_sizes sscanf_examples)
  show "change_min_age example_h g scr (typed ''00:60:00'') =
     Some (scr, [Wprintw_cmd ''Nothing to do. Failed read or invalid value.''], [])"
    using change_min_age_typed[OF printable_examples(5), of example_h g scr]
    by (simp add: example_sizes sscanf_examples)
  show "change_min_age example_h g scr (typed ''abc'') =
     Some (scr, [Wprintw_cmd ''Nothing to do. Failed read or invalid value.''], [])"
    using change_min_age_typed[OF printable_examples(6), of example_h g scr]
    by (cases g) (simp add: example_sizes sscanf_examples)
  show "change_min_age example_h g scr (typed []) =
     Some (scr, [Wprintw_cmd (''Nothing to do. Leave min age '' @ pg_stat_activity_min_age scr)], [])"
    by (simp add: change_min_age_def typed_def example_sizes c_str_def ERR_def)
qed

text \<open>
  C8, on the code: \<^verbatim>\<open>change_min_age\<close> rejects a line only when \<^verbatim>\<open>sscanf\<close> returns 0 or
  a field is too large. For the line \<^verbatim>\<open>12:30\<close> it returns 2 and leaves \<^verbatim>\<open>sec\<close> as it
  was; when that value is at most 59 (here 0), the line is stored as the min age.
\<close>

theorem min_age_partial_accepted:
  "change_min_age example_h (0, 0, 0) (view_screen example_h pg_stat_activity_long)
       (typed ''12:30'') =
     Some ((view_screen example_h pg_stat_activity_long)
             \<lparr>pg_stat_activity_min_age := ''12:30''\<rparr>, [], [])"
  using change_min_age_typed[OF printable_examples(7), of example_h "(0, 0, 0)"
      "view_screen example_h pg_stat_activity_long"]
  by (simp add: example_sizes sscanf_examples)

lemma min_age_partial_rejected:
  "change_min_age example_h (0, 0, 77) scr (typed ''12:30'') =
     Some (scr, [Wprintw_cmd ''Nothing to do. Failed read or invalid value.''], [])"
  using change_min_age_typed[OF printable_examples(7), of example_h "(0, 0, 77)" scr]
  by (simp add: example_sizes sscanf_examples)

subsection \<open>The connection file\<close>

lemma group_other_bits: "S_IRWXG OR S_IRWXO = (mask 6 :: 32 word)"
  by (simp add: S_IRWXG_def S_IRWXO_def mask_eq_exp_minus_1)

lemma no_group_other_bits:
  "((w :: 32 word) AND (S_IRWXG OR S_IRWXO) = 0) = (\<forall>n<6. \<not> bit w n)"
proof -
  have "(w AND mask 6 = 0) = (take_bit 6 w = 0)" by (simp add: take_bit_eq_mask)
  also have "\<dots> = (\<forall>n<6. \<not> bit w n)"
    by (auto simp: bit_eq_iff bit_take_bit_iff)
  finally show ?thesis by (simp add: group_other_bits)
qed

text \<open>
  C10. For a connection file that exists: when \<^verbatim>\<open>create_pgcenterrc_conn\<close> has read it,
  none of the six permission bits of the group and of the others is set in its mode;
  when one of them is set, the file is not read, the screens stay as they are and the
  warning is written; when none is set and the file opens (mode 0600 for its owner),
  its lines are read into the screens.
\<close>

theorem rc_file_permissions:
  "(create_pgcenterrc_conn path (Some f) scrs pos = Some (PGCENTERRC_READ_OK, scrs', out) \<longrightarrow>
      (\<forall>n<6. \<not> bit (st_mode f) n) \<and> can_open f \<and> rc_loop scrs pos (rc_lines f) = Some scrs') \<and>
   ((\<exists>n<6. bit (st_mode f) n) \<longrightarrow>
      create_pgcenterrc_conn path (Some f) scrs pos =
        Some (PGCENTERRC_READ_ERR, scrs,
              [Fprintf_stderr
                 (''WARNING: '' @ path @ '' has wrong permissions.'' @ [CHR 0x0A])])) \<and>
   ((\<forall>n<6. \<not> bit (st_mode f) n) \<and> can_open f \<longrightarrow>
      create_pgcenterrc_conn path (Some f) scrs pos =
        map_option (\<lambda>s. (PGCENTERRC_READ_OK, s, [])) (rc_loop scrs pos (rc_lines f)))"
  using no_group_other_bits[of "st_mode f"]
  by (auto simp: create_pgcenterrc_conn_def split: option.splits)

lemma mode_0600: "\<forall>n<6. \<not> bit (0x8180 :: 32 word) n" "\<exists>n<6. bit (0x81A4 :: 32 word) n"
proof -
  have "(0x8180 :: 32 word) AND (S_IRWXG OR S_IRWXO) = 0"
    by (simp add: S_IRWXG_def S_IRWXO_def)
  then show "\<forall>n<6. \<not> bit (0x8180 :: 32 word) n"
    by (simp only: no_group_other_bits)
  have "(0x81A4 :: 32 word) AND (S_IRWXG OR S_IRWXO) \<noteq> 0"
    by (simp add: S_IRWXG_def S_IRWXO_def)
  then show "\<exists>n<6. bit (0x81A4 :: 32 word) n"
    by (simp only: no_group_other_bits) blast
qed

lemmas eval_rc = rc_line_def scan_set_def

lemma example_rc_loop:
  "rc_loop (init_screens example_h) 0 (rc_lines example_rc) =
     Some ((init_screens example_h)
       [0 := (init_screen example_h 0)
               \<lparr>conn_used := True, host := ''db1'', port := ''5432'', user := ''alice'',
                dbname := ''postgres'', password := ''secret''\<rparr>,
        1 := (init_screen example_h 1)
               \<lparr>conn_used := True, host := ''db2'', port := ''5433'', user := ''bob'',
                dbname := ''app'', password := ''pw''\<rparr>])"
  by (simp add: example_rc_def init_screens_def MAX_CONSOLE_def upt_rec eval_rc init_screen_def
      numeral_nat)

theorem rc_file_permissions_witness:
  "st_mode example_rc AND (S_IRWXG OR S_IRWXO) = 0 \<and> can_open example_rc \<and>
   create_pgcenterrc_conn example_path (Some example_rc) (init_screens example_h) 0 =
     Some (PGCENTERRC_READ_OK,
       (init_screens example_h)
       [0 := (init_screen example_h 0)
               \<lparr>conn_used := True, host := ''db1'', port := ''5432'', user := ''alice'',
                dbname := ''postgres'', password := ''secret''\<rparr>,
        1 := (init_screen example_h 1)
               \<lparr>conn_used := True, host := ''db2'', port := ''5433'', user := ''bob'',
                dbname := ''app'', password := ''pw''\<rparr>], []) \<and>
   (\<exists>n<6. bit (st_mode (example_rc\<lparr>st_mode := 0x81A4\<rparr>)) n) \<and>
   create_pgcenterrc_conn example_path (Some (example_rc\<lparr>st_mode := 0x81A4\<rparr>))
       (init_screens example_h) 0 =
     Some (PGCENTERRC_READ_ERR, init_screens example_h,
           [Fprintf_stderr
              (''WARNING: '' @ example_path @ '' has wrong permissions.'' @ [CHR 0x0A])])"
proof -
  have m: "\<forall>n<6. \<not> bit (st_mode example_rc) n" "can_open example_rc"
    using mode_0600(1) by (simp_all add: example_rc_def)
  have b: "\<exists>n<6. bit (st_mode (example_rc\<lparr>st_mode := 0x81A4\<rparr>)) n"
    using mode_0600(2) by simp
  have 1: "create_pgcenterrc_conn example_path (Some example_rc) (init_screens example_h) 0 =
      map_option (\<lambda>s. (PGCENTERRC_READ_OK, s, []))
        (rc_loop (init_screens example_h) 0 (rc_lines example_rc))"
    using rc_file_permissions[of example_path example_rc "init_screens example_h" 0] m
    by blast
  have 2: "create_pgcenterrc_conn example_path (Some (example_rc\<lparr>st_mode := 0x81A4\<rparr>))
        (init_screens example_h) 0 =
      Some (PGCENTERRC_READ_ERR, init_screens example_h,
           [Fprintf_stderr
              (''WARNING: '' @ example_path @ '' has wrong permissions.'' @ [CHR 0x0A])])"
    using rc_file_permissions[of example_path "example_rc\<lparr>st_mode := 0x81A4\<rparr>"
        "init_screens example_h" 0] b
    by blast
  have z: "st_mode example_rc AND (S_IRWXG OR S_IRWXO) = 0"
    using m(1) by (simp only: no_group_other_bits)
  show ?thesis
    unfolding 1 2 example_rc_loop using z m(2) b by simp
qed

end
